theory Spec2Isabelle
  imports Main "HOL-Library.Word" "HOL-Library.Sublist" "HOL-Library.Char_ord"
begin

section \<open>The in-memory WebDAV lock system of lock.go\<close>

text \<open>
  A shallow embedding of \<^verbatim>\<open>src/lock.go\<close>. Go strings are byte strings (\<open>string\<close>).
  An instant (\<^verbatim>\<open>time.Time\<close>, wall clock only, no monotonic reading) is the integer
  \<open>sec * 10^9 + nsec\<close>, where \<open>sec\<close> counts the seconds since the zero instant and
  \<open>0 \<le> nsec < 10^9\<close>; a duration (\<^verbatim>\<open>time.Duration\<close>) is a number of nanoseconds.
  \<^verbatim>\<open>Time.Before\<close> is \<open><\<close> on these integers, and \<^verbatim>\<open>Time.Add\<close> is \<open>Add\<close> below, which
  saturates the seconds at the ends of the 64-bit range as Go does. \<^verbatim>\<open>*memLSNode\<close>
  pointers are addresses into a store of node objects, a nil pointer is \<open>None\<close>; the
  token counter is a 64-bit word. A panic is the outcome \<open>Panics\<close>; a loop that does not
  return is the value \<open>None\<close>.
\<close>

subsection \<open>Data model\<close>

type_synonym time = int
type_synonym duration = int
type_synonym addr = nat

text \<open>
  \<^verbatim>\<open>Time.Add\<close> of Go's time package: the duration is split into whole seconds
  (\<^verbatim>\<open>d / 1e9\<close>, truncated towards zero) and nanoseconds (\<^verbatim>\<open>d % 1e9\<close>), the nanoseconds
  are added and carried, and \<^verbatim>\<open>addSec\<close> adds the seconds, storing \<open>2^63 - 1\<close> or
  \<open>- (2^63 - 1)\<close> when the 64-bit sum overflows.
\<close>

definition quot :: "int \<Rightarrow> int \<Rightarrow> int" where
  "quot a b = (if 0 \<le> a then a div b else - ((- a) div b))"

definition addSec :: "int \<Rightarrow> int \<Rightarrow> int" where
  "addSec sec d =
     (if sec + d > 2 ^ 63 - 1 then 2 ^ 63 - 1
      else if sec + d < - (2 ^ 63) then - (2 ^ 63 - 1)
      else sec + d)"

definition Add :: "time \<Rightarrow> duration \<Rightarrow> time" where
  "Add t d =
     (let dsec = quot d 1000000000;
          nsec = t mod 1000000000 + (d - dsec * 1000000000);
          dsec1 = (if nsec \<ge> 1000000000 then dsec + 1 else if nsec < 0 then dsec - 1 else dsec);
          nsec1 = (if nsec \<ge> 1000000000 then nsec - 1000000000
                   else if nsec < 0 then nsec + 1000000000 else nsec)
      in addSec (t div 1000000000) dsec1 * 1000000000 + nsec1)"

datatype error =
    ErrConfirmationFailed
  | ErrForbidden
  | ErrLocked
  | ErrNoSuchLock
  | errInvalidTimeout

datatype 'a outcome = Returns 'a | Panics

record Condition =
  NotC :: bool
  Token :: string
  ETag :: string

record LockDetails =
  Root :: string
  Duration :: duration
  OwnerXML :: string
  ZeroDepth :: bool

record memLSNode =
  details :: LockDetails
  token :: string
  refCount :: int
  expiry :: time
  byExpiryIndex :: int
  held :: bool

text \<open>
  \<open>nodes\<close> is the store of node objects and \<open>nalloc\<close> the number of objects allocated so
  far (the next fresh address); the other four fields are those of \<^verbatim>\<open>memLS\<close> (the
  mutex is left out: every operation runs under it from start to end).
\<close>

record memLS =
  nodes :: "addr \<Rightarrow> memLSNode"
  nalloc :: nat
  byName :: "string \<rightharpoonup> addr"
  byToken :: "string \<rightharpoonup> addr"
  gen :: "64 word"
  byExpiry :: "addr list"

subsection \<open>Strings and paths (Go's strings, strconv and path packages)\<close>

text \<open>\<^verbatim>\<open>strings.LastIndex(s, "/")\<close> and \<^verbatim>\<open>strings.IndexByte\<close>: \<open>None\<close> is Go's -1.\<close>

fun IndexByte :: "string \<Rightarrow> char \<Rightarrow> nat option" where
  "IndexByte [] c = None"
| "IndexByte (x # xs) c = (if x = c then Some 0 else map_option Suc (IndexByte xs c))"

definition LastIndex :: "string \<Rightarrow> char \<Rightarrow> nat option" where
  "LastIndex s c =
     (case IndexByte (rev s) c of None \<Rightarrow> None | Some k \<Rightarrow> Some (length s - 1 - k))"

definition HasPrefix :: "string \<Rightarrow> string \<Rightarrow> bool" where
  "HasPrefix s pre = (take (length pre) s = pre)"

text \<open>
  \<^verbatim>\<open>path.Clean\<close>. \<open>out\<close> is the buffer written so far (Go's \<^verbatim>\<open>out.w\<close> is its
  length), the list argument is what remains to be read, \<open>dotdot\<close> the index below which
  a \<^verbatim>\<open>..\<close> element may not backtrack.
\<close>

function backtrack :: "string \<Rightarrow> nat \<Rightarrow> nat \<Rightarrow> nat" where
  "backtrack out dotdot w =
     (if w > dotdot \<and> out ! w \<noteq> CHR ''/'' then backtrack out dotdot (w - 1) else w)"
  by pat_completeness auto
termination
  by (relation "measure (\<lambda>(out, dotdot, w). w)") auto

declare backtrack.simps [simp del]

function cleanLoop :: "bool \<Rightarrow> string \<Rightarrow> string \<Rightarrow> nat \<Rightarrow> string" where
  "cleanLoop rooted [] out dotdot = out"
| "cleanLoop rooted (c # cs) out dotdot =
     (if c = CHR ''/'' then cleanLoop rooted cs out dotdot
      else if c = CHR ''.'' \<and> (cs = [] \<or> hd cs = CHR ''/'') then cleanLoop rooted cs out dotdot
      else if c = CHR ''.'' \<and> hd cs = CHR ''.'' \<and> (tl cs = [] \<or> hd (tl cs) = CHR ''/'') then
        (if length out > dotdot then
           cleanLoop rooted (tl cs) (take (backtrack out dotdot (length out - 1)) out) dotdot
         else if \<not> rooted then
           (let out' = (if length out > 0 then out @ ''/'' else out) @ ''..''
            in cleanLoop rooted (tl cs) out' (length out'))
         else cleanLoop rooted (tl cs) out dotdot)
      else
        (let out' = (if (rooted \<and> length out \<noteq> 1) \<or> (\<not> rooted \<and> length out \<noteq> 0)
                     then out @ ''/'' else out)
         in cleanLoop rooted (dropWhile (\<lambda>x. x \<noteq> CHR ''/'') cs)
              (out' @ c # takeWhile (\<lambda>x. x \<noteq> CHR ''/'') cs) dotdot))"
  by pat_completeness auto
termination
  by (relation "measure (\<lambda>(rooted, r, out, dotdot). length r)")
     (auto simp: length_dropWhile_le le_imp_less_Suc)

declare cleanLoop.simps [simp del]

definition Clean :: "string \<Rightarrow> string" where
  "Clean path =
     (if path = [] then ''.''
      else let rooted = (hd path = CHR ''/'');
               out = (if rooted then cleanLoop True (tl path) ''/'' 1
                      else cleanLoop False path [] 0)
           in if out = [] then ''.'' else out)"

text \<open>\<^verbatim>\<open>path.Dir\<close>: the part up to and including the last slash, cleaned.\<close>

definition Dir :: "string \<Rightarrow> string" where
  "Dir path =
     Clean (case LastIndex path CHR ''/'' of None \<Rightarrow> [] | Some i \<Rightarrow> take (i + 1) path)"

text \<open>
  Modelled from the spec: \<^verbatim>\<open>slashClean\<close> is a function of this package that
  \<^verbatim>\<open>lock.go\<close> calls and does not define. The spec describes it as the absolute-path
  normalizer "equivalent to cleaning a slash-separated path (resolving ./.., collapsing
  repeated separators, always yielding an absolute, leading-slash form)": a leading
  slash is put in front of a name that has none, and the result is cleaned.
\<close>

definition slashClean :: "string \<Rightarrow> string" where
  "slashClean name =
     Clean (if name = [] \<or> hd name \<noteq> CHR ''/'' then ''/'' @ name else name)"

text \<open>\<^verbatim>\<open>strconv.FormatUint(g, 10)\<close>: the decimal digits of \<open>g\<close>, most significant first.\<close>

definition digit :: "nat \<Rightarrow> char" where
  "digit d = ''0123456789'' ! d"

fun decimal :: "nat \<Rightarrow> string" where
  "decimal n = (if n < 10 then [digit n] else decimal (n div 10) @ [digit (n mod 10)])"

declare decimal.simps [simp del]

definition FormatUint :: "64 word \<Rightarrow> string" where
  "FormatUint g = decimal (unat g)"

text \<open>
  \<^verbatim>\<open>strings.TrimSpace\<close> removes the leading and trailing runes that
  \<^verbatim>\<open>unicode.IsSpace\<close> accepts; \<open>spaceRunes\<close> are their UTF-8 encodings (the six ASCII
  ones, U+0085, U+00A0, U+1680, U+2000 to U+200A, U+2028, U+2029, U+202F, U+205F, U+3000).
\<close>

definition spaceRunes :: "string list" where
  "spaceRunes =
    [[CHR 0x09], [CHR 0x0A], [CHR 0x0B], [CHR 0x0C], [CHR 0x0D], [CHR 0x20],
     [CHR 0xC2, CHR 0x85], [CHR 0xC2, CHR 0xA0], [CHR 0xE1, CHR 0x9A, CHR 0x80],
     [CHR 0xE2, CHR 0x80, CHR 0x80], [CHR 0xE2, CHR 0x80, CHR 0x81],
     [CHR 0xE2, CHR 0x80, CHR 0x82], [CHR 0xE2, CHR 0x80, CHR 0x83],
     [CHR 0xE2, CHR 0x80, CHR 0x84], [CHR 0xE2, CHR 0x80, CHR 0x85],
     [CHR 0xE2, CHR 0x80, CHR 0x86], [CHR 0xE2, CHR 0x80, CHR 0x87],
     [CHR 0xE2, CHR 0x80, CHR 0x88], [CHR 0xE2, CHR 0x80, CHR 0x89],
     [CHR 0xE2, CHR 0x80, CHR 0x8A], [CHR 0xE2, CHR 0x80, CHR 0xA8],
     [CHR 0xE2, CHR 0x80, CHR 0xA9], [CHR 0xE2, CHR 0x80, CHR 0xAF],
     [CHR 0xE2, CHR 0x81, CHR 0x9F], [CHR 0xE3, CHR 0x80, CHR 0x80]]"

function TrimLeft :: "string \<Rightarrow> string" where
  "TrimLeft s =
     (case find (\<lambda>r. r \<noteq> [] \<and> prefix r s) spaceRunes of
        None \<Rightarrow> s
      | Some r \<Rightarrow> TrimLeft (drop (length r) s))"
  by pat_completeness auto
termination
proof (relation "measure length")
  show "wf (measure length)" by simp
next
  fix s :: string and r
  assume "find (\<lambda>r. r \<noteq> [] \<and> prefix r s) spaceRunes = Some r"
  then have "r \<noteq> [] \<and> prefix r s" by (auto simp: find_Some_iff)
  then show "(drop (length r) s, s) \<in> measure length"
    by (cases s) (auto simp: prefix_def)
qed

declare TrimLeft.simps [simp del]

function TrimRight :: "string \<Rightarrow> string" where
  "TrimRight s =
     (case find (\<lambda>r. r \<noteq> [] \<and> suffix r s) spaceRunes of
        None \<Rightarrow> s
      | Some r \<Rightarrow> TrimRight (take (length s - length r) s))"
  by pat_completeness auto
termination
proof (relation "measure length")
  show "wf (measure length)" by simp
next
  fix s :: string and r
  assume "find (\<lambda>r. r \<noteq> [] \<and> suffix r s) spaceRunes = Some r"
  then have "r \<noteq> [] \<and> suffix r s" by (auto simp: find_Some_iff)
  then show "(take (length s - length r) s, s) \<in> measure length"
    by (cases s) (auto simp: suffix_def)
qed

declare TrimRight.simps [simp del]

definition TrimSpace :: "string \<Rightarrow> string" where
  "TrimSpace s = TrimRight (TrimLeft s)"

text \<open>
  \<^verbatim>\<open>strconv.ParseInt(s, 10, 64)\<close>: an optional sign, then one or more decimal digits;
  \<open>None\<close> stands for its two errors, a syntax error and a value outside int64.
\<close>

definition isDigit :: "char \<Rightarrow> bool" where
  "isDigit c = (CHR ''0'' \<le> c \<and> c \<le> CHR ''9'')"

definition digitsValue :: "string \<Rightarrow> nat" where
  "digitsValue ds = foldl (\<lambda>n c. 10 * n + (of_char c - 48)) 0 ds"

definition ParseInt :: "string \<Rightarrow> int option" where
  "ParseInt s =
     (let neg = (s \<noteq> [] \<and> hd s = CHR ''-'');
          ds = (if s \<noteq> [] \<and> (hd s = CHR ''+'' \<or> hd s = CHR ''-'') then tl s else s)
      in if ds = [] \<or> \<not> list_all isDigit ds then None
         else let un = digitsValue ds
              in if neg then (if un > 2 ^ 63 then None else Some (- int un))
                 else (if un \<ge> 2 ^ 63 then None else Some (int un)))"

subsection \<open>parseTimeout\<close>

definition infiniteTimeout :: duration where
  "infiniteTimeout = - 1"

definition Second :: duration where
  "Second = 1000000000"

definition parseTimeout :: "string \<Rightarrow> error + duration" where
  "parseTimeout s0 =
     (if s0 = [] then Inr infiniteTimeout
      else
        let s1 = (case IndexByte s0 CHR '','' of None \<Rightarrow> s0 | Some i \<Rightarrow> take i s0);
            s2 = TrimSpace s1
        in if s2 = ''Infinite'' then Inr infiniteTimeout
           else if \<not> HasPrefix s2 ''Second-'' then Inl errInvalidTimeout
           else
             let s3 = drop (length ''Second-'') s2
             in if s3 = [] \<or> hd s3 < CHR ''0'' \<or> CHR ''9'' < hd s3 then Inl errInvalidTimeout
                else (case ParseInt s3 of
                        None \<Rightarrow> Inl errInvalidTimeout
                      | Some n \<Rightarrow>
                          if 2 ^ 32 - 1 < n then Inl errInvalidTimeout
                          else Inr (n * Second)))"

subsection \<open>Outcomes\<close>

text \<open>
  An internal function returns or panics; a public operation starts with a loop that
  may not return, so its result is an \<open>outcome option\<close>.
\<close>

definition obind :: "'a outcome \<Rightarrow> ('a \<Rightarrow> 'b outcome) \<Rightarrow> 'b outcome" where
  "obind x f = (case x of Panics \<Rightarrow> Panics | Returns a \<Rightarrow> f a)"

definition rbind :: "'a outcome option \<Rightarrow> ('a \<Rightarrow> 'b outcome option) \<Rightarrow> 'b outcome option" where
  "rbind x f = (case x of None \<Rightarrow> None | Some Panics \<Rightarrow> Some Panics | Some (Returns a) \<Rightarrow> f a)"

text \<open>An assignment to fields of the node object at address \<open>a\<close>.\<close>

definition setNode :: "addr \<Rightarrow> (memLSNode \<Rightarrow> memLSNode) \<Rightarrow> memLS \<Rightarrow> memLS" where
  "setNode a f m = m\<lparr>nodes := (nodes m)(a := f (nodes m a))\<rparr>"

subsection \<open>The expiry queue: byExpiry under container/heap\<close>

definition Less :: "memLS \<Rightarrow> nat \<Rightarrow> nat \<Rightarrow> bool" where
  "Less m i j = (expiry (nodes m (byExpiry m ! i)) < expiry (nodes m (byExpiry m ! j)))"

definition Swap :: "nat \<Rightarrow> nat \<Rightarrow> memLS \<Rightarrow> memLS" where
  "Swap i j m =
     (let b = byExpiry m;
          b' = (b[i := b ! j])[j := b ! i];
          m1 = m\<lparr>byExpiry := b'\<rparr>;
          m2 = setNode (b' ! i) (\<lambda>x. x\<lparr>byExpiryIndex := int i\<rparr>) m1
      in setNode (b' ! j) (\<lambda>x. x\<lparr>byExpiryIndex := int j\<rparr>) m2)"

definition Push :: "addr \<Rightarrow> memLS \<Rightarrow> memLS" where
  "Push x m =
     (let m1 = setNode x (\<lambda>n. n\<lparr>byExpiryIndex := int (length (byExpiry m))\<rparr>) m
      in m1\<lparr>byExpiry := byExpiry m1 @ [x]\<rparr>)"

definition Pop :: "memLS \<Rightarrow> addr \<times> memLS" where
  "Pop m =
     (let i = length (byExpiry m) - 1;
          n = byExpiry m ! i;
          m1 = setNode n (\<lambda>x. x\<lparr>byExpiryIndex := - 1\<rparr>) m
      in (n, m1\<lparr>byExpiry := take i (byExpiry m1)\<rparr>))"

text \<open>
  \<^verbatim>\<open>heap.up\<close> and \<^verbatim>\<open>heap.down\<close>. Go's \<^verbatim>\<open>(j - 1) / 2\<close> truncates towards zero, so the
  parent of 0 is 0, as with the subtraction on \<open>nat\<close>.
\<close>

function up :: "nat \<Rightarrow> memLS \<Rightarrow> memLS" where
  "up j m =
     (let i = (j - 1) div 2
      in if i = j \<or> \<not> Less m j i then m else up i (Swap i j m))"
  by pat_completeness auto
termination
  by (relation "measure (\<lambda>(j, m). j)") auto

declare up.simps [simp del]

function downLoop :: "nat \<Rightarrow> nat \<Rightarrow> memLS \<Rightarrow> nat \<times> memLS" where
  "downLoop i n m =
     (let j1 = 2 * i + 1
      in if j1 \<ge> n then (i, m)
         else let j = (if j1 + 1 < n \<and> Less m (j1 + 1) j1 then j1 + 1 else j1)
              in if \<not> Less m j i then (i, m) else downLoop j n (Swap i j m))"
  by pat_completeness auto
termination
  by (relation "measure (\<lambda>(i, n, m). n - i)") auto

declare downLoop.simps [simp del]

definition down :: "nat \<Rightarrow> nat \<Rightarrow> memLS \<Rightarrow> bool \<times> memLS" where
  "down i0 n m = (case downLoop i0 n m of (i, m') \<Rightarrow> (i > i0, m'))"

definition heap_Push :: "addr \<Rightarrow> memLS \<Rightarrow> memLS" where
  "heap_Push x m = (let m1 = Push x m in up (length (byExpiry m1) - 1) m1)"

text \<open>
  \<^verbatim>\<open>heap.Remove(h, i)\<close>. An index outside the slice panics in \<^verbatim>\<open>Swap\<close> or \<^verbatim>\<open>Pop\<close>;
  with \<open>i\<close> inside it every index used below is inside it too.
\<close>

definition heap_Remove :: "nat \<Rightarrow> memLS \<Rightarrow> memLS outcome" where
  "heap_Remove i m =
     (if length (byExpiry m) \<le> i then Panics
      else
        let n = length (byExpiry m) - 1;
            m1 = (if n \<noteq> i then
                    (case down i n (Swap i n m) of
                       (moved, m') \<Rightarrow> if \<not> moved then up i m' else m')
                  else m)
        in Returns (snd (Pop m1)))"

subsection \<open>The namespace tree\<close>

lemma IndexByte_Some: "IndexByte s c = Some k \<Longrightarrow> k < length s \<and> s ! k = c"
  by (induction s arbitrary: k) (auto split: if_splits)

lemma LastIndex_Some: "LastIndex s c = Some i \<Longrightarrow> i < length s \<and> s ! i = c"
proof -
  assume a: "LastIndex s c = Some i"
  then obtain k where k: "IndexByte (rev s) c = Some k" and i: "i = length s - 1 - k"
    by (auto simp: LastIndex_def split: option.splits)
  from IndexByte_Some[OF k] have kl: "k < length s" and kc: "rev s ! k = c" by auto
  from kl kc have "s ! (length s - Suc k) = c" by (simp add: rev_nth)
  with kl i show ?thesis by simp
qed

text \<open>
  \<^verbatim>\<open>walkToRoot\<close> calls the visitor on \<open>name\<close> and on each name got by cutting at the last
  slash, up to \<^verbatim>\<open>"/"\<close>. The visitor's effects are passed as a state \<open>s\<close>. Slicing a name
  that has no slash (\<^verbatim>\<open>name[:-1]\<close>) panics.
\<close>

function walkLoop ::
  "string \<Rightarrow> bool \<Rightarrow> (string \<Rightarrow> bool \<Rightarrow> 's \<Rightarrow> bool \<times> 's) \<Rightarrow> 's \<Rightarrow> (bool \<times> 's) outcome" where
  "walkLoop name first f s =
     (case f name first s of
        (ok, s') \<Rightarrow>
          if \<not> ok then Returns (False, s')
          else if name = ''/'' then Returns (True, s')
          else (case LastIndex name CHR ''/'' of
                  None \<Rightarrow> Panics
                | Some i \<Rightarrow>
                    walkLoop (if take i name = [] then ''/'' else take i name) False f s'))"
  by pat_completeness auto
termination
proof (relation "measure (\<lambda>(name, first, f, s). length name)", goal_cases)
  case 1
  show ?case by simp
next
  case (2 name first f s ok s1 i)
  from LastIndex_Some[OF 2(4)] have i: "i < length name" "name ! i = CHR ''/''" by auto
  have "length (if take i name = [] then ''/'' else take i name) < length name"
  proof (cases "take i name = []")
    case True
    with i have "i = 0" by auto
    with i 2(3) have "1 < length name" by (cases name) (auto simp: neq_Nil_conv)
    with True show ?thesis by simp
  next
    case False
    with i show ?thesis by simp
  qed
  then show ?case by simp
qed

declare walkLoop.simps [simp del]

definition walkToRoot ::
  "string \<Rightarrow> (string \<Rightarrow> bool \<Rightarrow> 's \<Rightarrow> bool \<times> 's) \<Rightarrow> 's \<Rightarrow> (bool \<times> 's) outcome" where
  "walkToRoot name f s = walkLoop name True f s"

text \<open>The visitor of \<^verbatim>\<open>canCreate\<close> reads the lock system and has no effect.\<close>

definition canCreate_visit :: "memLS \<Rightarrow> bool \<Rightarrow> string \<Rightarrow> bool \<Rightarrow> unit \<Rightarrow> bool \<times> unit" where
  "canCreate_visit m zeroDepth name0 first u =
     (case byName m name0 of
        None \<Rightarrow> (True, u)
      | Some n \<Rightarrow>
          if first then
            (if token (nodes m n) \<noteq> [] then (False, u)
             else if \<not> zeroDepth then (False, u)
             else (True, u))
          else if token (nodes m n) \<noteq> [] \<and> \<not> ZeroDepth (details (nodes m n)) then (False, u)
          else (True, u))"

definition canCreate :: "string \<Rightarrow> bool \<Rightarrow> memLS \<Rightarrow> bool outcome" where
  "canCreate name zeroDepth m =
     obind (walkToRoot name (canCreate_visit m zeroDepth) ()) (\<lambda>(ok, u). Returns ok)"

text \<open>
  The visitor of \<^verbatim>\<open>create\<close>: its state is the lock system and the captured result
  \<^verbatim>\<open>ret\<close>. A new node object has the zero value in every field but \<^verbatim>\<open>details.Root\<close>
  and \<^verbatim>\<open>byExpiryIndex\<close>.
\<close>

definition zeroTime :: time where
  "zeroTime = 0"

definition newNode :: "string \<Rightarrow> memLSNode" where
  "newNode name0 =
     \<lparr>details = \<lparr>Root = name0, Duration = 0, OwnerXML = [], ZeroDepth = False\<rparr>,
      token = [], refCount = 0, expiry = zeroTime, byExpiryIndex = - 1, held = False\<rparr>"

definition create_visit ::
  "string \<Rightarrow> bool \<Rightarrow> memLS \<times> addr option \<Rightarrow> bool \<times> memLS \<times> addr option" where
  "create_visit name0 first st =
     (case st of
        (m, ret) \<Rightarrow>
          let (n, m1) =
                (case byName m name0 of
                   None \<Rightarrow>
                     (nalloc m,
                      m\<lparr>nodes := (nodes m)(nalloc m := newNode name0),
                        nalloc := nalloc m + 1,
                        byName := (byName m)(name0 \<mapsto> nalloc m)\<rparr>)
                 | Some n \<Rightarrow> (n, m));
              m2 = setNode n (\<lambda>x. x\<lparr>refCount := refCount x + 1\<rparr>) m1
          in (True, m2, if first then Some n else ret))"

definition create :: "string \<Rightarrow> memLS \<Rightarrow> (addr option \<times> memLS) outcome" where
  "create name m =
     obind (walkToRoot name create_visit (m, None)) (\<lambda>(ok, m', ret). Returns (ret, m'))"

definition remove_visit :: "string \<Rightarrow> bool \<Rightarrow> memLS \<Rightarrow> bool \<times> memLS" where
  "remove_visit name0 first m =
     (case byName m name0 of
        None \<Rightarrow> (True, m)
      | Some x \<Rightarrow>
          let m1 = setNode x (\<lambda>y. y\<lparr>refCount := refCount y - 1\<rparr>) m
          in if refCount (nodes m1 x) = 0
             then (True, m1\<lparr>byName := (byName m1)(name0 := None)\<rparr>)
             else (True, m1))"

definition remove :: "addr \<Rightarrow> memLS \<Rightarrow> memLS outcome" where
  "remove n m =
     (let m1 = m\<lparr>byToken := (byToken m)(token (nodes m n) := None)\<rparr>;
          m2 = setNode n (\<lambda>x. x\<lparr>token := []\<rparr>) m1
      in obind (walkToRoot (Root (details (nodes m2 n))) remove_visit m2)
           (\<lambda>(ok, m3).
              if byExpiryIndex (nodes m3 n) \<ge> 0
              then heap_Remove (nat (byExpiryIndex (nodes m3 n))) m3
              else Returns m3))"

subsection \<open>The lock system\<close>

text \<open>
  \<^verbatim>\<open>NewMemLS\<close> seeds the token counter with \<^verbatim>\<open>uint64(time.Now().Unix())\<close>; the clock
  reading is the argument \<open>unixNow\<close>.
\<close>

definition NewMemLS :: "int \<Rightarrow> memLS" where
  "NewMemLS unixNow =
     \<lparr>nodes = (\<lambda>a. newNode []), nalloc = 0, byName = Map.empty, byToken = Map.empty,
      gen = word_of_int unixNow, byExpiry = []\<rparr>"

definition nextToken :: "memLS \<Rightarrow> string \<times> memLS" where
  "nextToken m = (let m1 = m\<lparr>gen := gen m + 1\<rparr> in (FormatUint (gen m1), m1))"

partial_function (option) collectExpiredNodes :: "time \<Rightarrow> memLS \<Rightarrow> memLS outcome option" where
  "collectExpiredNodes now m =
     (case byExpiry m of
        [] \<Rightarrow> Some (Returns m)
      | a # rest \<Rightarrow>
          if now < expiry (nodes m a) then Some (Returns m)
          else (case remove a m of
                  Panics \<Rightarrow> Some Panics
                | Returns m' \<Rightarrow> collectExpiredNodes now m'))"

fun lookup :: "string \<Rightarrow> Condition list \<Rightarrow> memLS \<Rightarrow> addr option" where
  "lookup name [] m = None"
| "lookup name (c # cs) m =
     (case byToken m (Token c) of
        None \<Rightarrow> lookup name cs m
      | Some n \<Rightarrow>
          if held (nodes m n) then lookup name cs m
          else if name = Root (details (nodes m n)) then Some n
          else if ZeroDepth (details (nodes m n)) then lookup name cs m
          else if Root (details (nodes m n)) = ''/''
                  \<or> HasPrefix name (Root (details (nodes m n)) @ ''/'') then Some n
          else lookup name cs m)"

definition hold :: "addr \<Rightarrow> memLS \<Rightarrow> memLS outcome" where
  "hold n m =
     (if held (nodes m n) then Panics
      else
        let m1 = setNode n (\<lambda>x. x\<lparr>held := True\<rparr>) m
        in if Duration (details (nodes m1 n)) \<ge> 0 \<and> byExpiryIndex (nodes m1 n) \<ge> 0
           then heap_Remove (nat (byExpiryIndex (nodes m1 n))) m1
           else Returns m1)"

definition unhold :: "addr \<Rightarrow> memLS \<Rightarrow> memLS outcome" where
  "unhold n m =
     (if \<not> held (nodes m n) then Panics
      else
        let m1 = setNode n (\<lambda>x. x\<lparr>held := False\<rparr>) m
        in if Duration (details (nodes m1 n)) \<ge> 0 then Returns (heap_Push n m1)
           else Returns m1)"

text \<open>
  \<^verbatim>\<open>Confirm\<close> returns a closure over the two node pointers; the model returns the two
  pointers, and \<open>release\<close> is the closure's body.
\<close>

type_synonym releaseHandle = "addr option \<times> addr option"

definition Confirm ::
  "time \<Rightarrow> string \<Rightarrow> string \<Rightarrow> Condition list \<Rightarrow> memLS
     \<Rightarrow> ((error + releaseHandle) \<times> memLS) outcome option" where
  "Confirm now name0 name1 conditions m0 =
     rbind (collectExpiredNodes now m0) (\<lambda>m.
       let n0 = (if name0 \<noteq> [] then lookup (slashClean name0) conditions m else None)
       in if name0 \<noteq> [] \<and> n0 = None then Some (Returns (Inl ErrConfirmationFailed, m))
          else
            let n1 = (if name1 \<noteq> [] then lookup (slashClean name1) conditions m else None)
            in if name1 \<noteq> [] \<and> n1 = None then Some (Returns (Inl ErrConfirmationFailed, m))
               else
                 let n1' = (if n1 = n0 then None else n1)
                 in Some
                      (obind (case n0 of None \<Rightarrow> Returns m | Some a \<Rightarrow> hold a m) (\<lambda>m1.
                       obind (case n1' of None \<Rightarrow> Returns m1 | Some a \<Rightarrow> hold a m1) (\<lambda>m2.
                         Returns (Inr (n0, n1'), m2)))))"

definition release :: "releaseHandle \<Rightarrow> memLS \<Rightarrow> memLS outcome" where
  "release h m =
     (case h of
        (n0, n1) \<Rightarrow>
          obind (case n1 of None \<Rightarrow> Returns m | Some a \<Rightarrow> unhold a m) (\<lambda>m1.
            (case n0 of None \<Rightarrow> Returns m1 | Some a \<Rightarrow> unhold a m1)))"

definition Create ::
  "time \<Rightarrow> LockDetails \<Rightarrow> memLS \<Rightarrow> ((error + string) \<times> memLS) outcome option" where
  "Create now details0 m0 =
     rbind (collectExpiredNodes now m0) (\<lambda>m.
       let details1 = details0\<lparr>Root := slashClean (Root details0)\<rparr>
       in Some
            (obind (canCreate (Root details1) (ZeroDepth details1) m) (\<lambda>ok.
               if \<not> ok then Returns (Inl ErrLocked, m)
               else
                 obind (create (Root details1) m) (\<lambda>(ret, m1).
                   case ret of
                     None \<Rightarrow> Panics
                   | Some n \<Rightarrow>
                       (case nextToken m1 of
                          (tok, m2) \<Rightarrow>
                            let m3 = setNode n (\<lambda>x. x\<lparr>token := tok\<rparr>) m2;
                                m4 = m3\<lparr>byToken := (byToken m3)(token (nodes m3 n) \<mapsto> n)\<rparr>;
                                m5 = setNode n (\<lambda>x. x\<lparr>details := details1\<rparr>) m4;
                                m7 = (if Duration (details (nodes m5 n)) \<ge> 0 then
                                        heap_Push n
                                          (setNode n
                                             (\<lambda>x. x\<lparr>expiry := Add now (Duration (details x))\<rparr>) m5)
                                      else m5)
                            in Returns (Inr (token (nodes m7 n)), m7))))))"

definition Refresh ::
  "time \<Rightarrow> string \<Rightarrow> duration \<Rightarrow> memLS \<Rightarrow> ((error + LockDetails) \<times> memLS) outcome option" where
  "Refresh now tok duration m0 =
     rbind (collectExpiredNodes now m0) (\<lambda>m.
       case byToken m tok of
         None \<Rightarrow> Some (Returns (Inl ErrNoSuchLock, m))
       | Some n \<Rightarrow>
           if held (nodes m n) then Some (Returns (Inl ErrLocked, m))
           else
             Some
               (obind (if byExpiryIndex (nodes m n) \<ge> 0
                       then heap_Remove (nat (byExpiryIndex (nodes m n))) m
                       else Returns m) (\<lambda>m1.
                  let m2 = setNode n (\<lambda>x. x\<lparr>details := (details x)\<lparr>Duration := duration\<rparr>\<rparr>) m1;
                      m4 = (if Duration (details (nodes m2 n)) \<ge> 0 then
                              heap_Push n
                                (setNode n (\<lambda>x. x\<lparr>expiry := Add now (Duration (details x))\<rparr>) m2)
                            else m2)
                  in Returns (Inr (details (nodes m4 n)), m4))))"

definition Unlock :: "time \<Rightarrow> string \<Rightarrow> memLS \<Rightarrow> ((error + unit) \<times> memLS) outcome option" where
  "Unlock now tok m0 =
     rbind (collectExpiredNodes now m0) (\<lambda>m.
       case byToken m tok of
         None \<Rightarrow> Some (Returns (Inl ErrNoSuchLock, m))
       | Some n \<Rightarrow>
           if held (nodes m n) then Some (Returns (Inl ErrLocked, m))
           else Some (obind (remove n m) (\<lambda>m1. Returns (Inr (), m1))))"

definition Delete :: "time \<Rightarrow> string \<Rightarrow> memLS \<Rightarrow> ((error + unit) \<times> memLS) outcome option" where
  "Delete now name m0 =
     rbind (collectExpiredNodes now m0) (\<lambda>m.
       case byName m name of
         None \<Rightarrow> Some (Returns (Inr (), m))
       | Some n \<Rightarrow> Some (obind (remove n m) (\<lambda>m1. Returns (Inr (), m1))))"

text \<open>
  \<^verbatim>\<open>GetByName\<close> has no \<^verbatim>\<open>now\<close> parameter: it sweeps with \<^verbatim>\<open>time.Now()\<close>, the clock
  reading \<open>wallNow\<close> here. Its loop follows \<^verbatim>\<open>path.Dir\<close> until the name is \<^verbatim>\<open>"/"\<close>.
\<close>

partial_function (option) GetByName_loop ::
  "string \<Rightarrow> memLS \<Rightarrow> (error + string \<times> time \<times> LockDetails) option" where
  "GetByName_loop name m =
     (case (case byName m name of
              None \<Rightarrow> None
            | Some n \<Rightarrow> if token (nodes m n) \<noteq> [] then Some n else None) of
        Some n \<Rightarrow> Some (Inr (token (nodes m n), expiry (nodes m n), details (nodes m n)))
      | None \<Rightarrow>
          if name = ''/'' then Some (Inl ErrNoSuchLock)
          else GetByName_loop (Dir name) m)"

definition GetByName ::
  "time \<Rightarrow> string \<Rightarrow> memLS
     \<Rightarrow> ((error + string \<times> time \<times> LockDetails) \<times> memLS) outcome option" where
  "GetByName wallNow name m0 =
     rbind (collectExpiredNodes wallNow m0) (\<lambda>m.
       map_option (\<lambda>r. Returns (r, m)) (GetByName_loop (slashClean name) m))"

declare collectExpiredNodes.simps [code]
declare GetByName_loop.simps [code]

subsection \<open>Example lock systems\<close>

text \<open>
  \<open>exA\<close> is the lock system after one \<^verbatim>\<open>Create\<close> of a zero-depth lock at \<^verbatim>\<open>/a\<close> that
  never expires, on a new lock system whose token counter starts at 0.
\<close>

definition dA :: LockDetails where
  "dA = \<lparr>Root = ''/a'', Duration = - 1, OwnerXML = [], ZeroDepth = True\<rparr>"

definition exA :: memLS where
  "exA =
     \<lparr>nodes = (\<lambda>a. newNode [])
        (0 := \<lparr>details = dA, token = ''1'', refCount = 1, expiry = 0, byExpiryIndex = - 1,
               held = False\<rparr>,
         1 := \<lparr>details = \<lparr>Root = ''/'', Duration = 0, OwnerXML = [], ZeroDepth = False\<rparr>,
               token = [], refCount = 1, expiry = 0, byExpiryIndex = - 1, held = False\<rparr>),
      nalloc = 2, byName = [''/a'' \<mapsto> 0, ''/'' \<mapsto> 1], byToken = [''1'' \<mapsto> 0],
      gen = 1, byExpiry = []\<rparr>"

text \<open>
  \<open>exB\<close> is the lock system after one \<^verbatim>\<open>Create\<close>, at time 0, of an infinite-depth lock at
  \<^verbatim>\<open>/a\<close> that lasts 10; \<open>cond1\<close> is a condition that presents the token \<^verbatim>\<open>1\<close>.
\<close>

definition dB :: LockDetails where
  "dB = \<lparr>Root = ''/a'', Duration = 10, OwnerXML = [], ZeroDepth = False\<rparr>"

definition exB :: memLS where
  "exB =
     \<lparr>nodes = (\<lambda>a. newNode [])
        (0 := \<lparr>details = dB, token = ''1'', refCount = 1, expiry = 10, byExpiryIndex = 0,
               held = False\<rparr>,
         1 := \<lparr>details = \<lparr>Root = ''/'', Duration = 0, OwnerXML = [], ZeroDepth = False\<rparr>,
               token = [], refCount = 1, expiry = 0, byExpiryIndex = - 1, held = False\<rparr>),
      nalloc = 2, byName = [''/a'' \<mapsto> 0, ''/'' \<mapsto> 1], byToken = [''1'' \<mapsto> 0],
      gen = 1, byExpiry = [0]\<rparr>"

definition cond1 :: Condition where
  "cond1 = \<lparr>NotC = False, Token = ''1'', ETag = []\<rparr>"

subsection \<open>Notions used to state the properties\<close>

text \<open>A rooted name starts with a slash; \<open>walkNames\<close> lists the names \<^verbatim>\<open>walkToRoot\<close> visits.\<close>

definition rooted :: "string \<Rightarrow> bool" where
  "rooted name = (name \<noteq> [] \<and> hd name = CHR ''/'')"

function walkNames :: "string \<Rightarrow> string list" where
  "walkNames name =
     (if name = ''/'' then [name]
      else (case LastIndex name CHR ''/'' of
              None \<Rightarrow> [name]
            | Some i \<Rightarrow> name # walkNames (if take i name = [] then ''/'' else take i name)))"
  by pat_completeness auto
termination
proof (relation "measure length", goal_cases)
  case 1
  show ?case by simp
next
  case (2 name i)
  from LastIndex_Some[OF 2(2)] have i: "i < length name" "name ! i = CHR ''/''" by auto
  have "length (if take i name = [] then ''/'' else take i name) < length name"
  proof (cases "take i name = []")
    case True
    with i have "i = 0" by auto
    with i 2(1) have "1 < length name" by (cases name) (auto simp: neq_Nil_conv)
    with True show ?thesis by simp
  next
    case False
    with i show ?thesis by simp
  qed
  then show ?case by simp
qed

declare walkNames.simps [simp del]

text \<open>The effect of a visitor that never stops the walk, on a list of names.\<close>

fun walkFold :: "(string \<Rightarrow> bool \<Rightarrow> 's \<Rightarrow> bool \<times> 's) \<Rightarrow> bool \<Rightarrow> string list \<Rightarrow> 's \<Rightarrow> 's" where
  "walkFold f first [] s = s"
| "walkFold f first (n # ns) s = walkFold f False ns (snd (f n first s))"

text \<open>
  The queue and the nodes' \<^verbatim>\<open>byExpiryIndex\<close> fields agree: the node at position \<open>i\<close>
  records \<open>i\<close>, and a node outside the queue records -1.
\<close>

definition idx_ok :: "memLS \<Rightarrow> bool" where
  "idx_ok m \<longleftrightarrow>
     (\<forall>i < length (byExpiry m). byExpiryIndex (nodes m (byExpiry m ! i)) = int i) \<and>
     (\<forall>a. a \<notin> set (byExpiry m) \<longrightarrow> byExpiryIndex (nodes m a) = - 1)"

text \<open>
  A well-formed lock system: the queue is consistent and holds allocated, explicitly
  locked, not held, finite-duration nodes; every allocated node has a rooted name; a
  registered token is the token of its node and a node's token is registered for it; a
  name in the name index is the root of its node.
\<close>

definition wf_memLS :: "memLS \<Rightarrow> bool" where
  "wf_memLS m \<longleftrightarrow>
     idx_ok m \<and>
     (\<forall>a \<in> set (byExpiry m).
        a < nalloc m \<and> \<not> held (nodes m a) \<and> 0 \<le> Duration (details (nodes m a))
        \<and> token (nodes m a) \<noteq> []) \<and>
     (\<forall>a < nalloc m. rooted (Root (details (nodes m a)))) \<and>
     (\<forall>t a. byToken m t = Some a \<longrightarrow> a < nalloc m \<and> token (nodes m a) = t \<and> t \<noteq> []) \<and>
     (\<forall>a. token (nodes m a) \<noteq> [] \<longrightarrow> byToken m (token (nodes m a)) = Some a) \<and>
     (\<forall>name a. byName m name = Some a \<longrightarrow> a < nalloc m \<and> Root (details (nodes m a)) = name)"

text \<open>
  Two lock systems that differ only in the queue and in the nodes' \<^verbatim>\<open>byExpiryIndex\<close>
  fields, as before and after a heap operation.
\<close>

definition erase_idx :: "memLSNode \<Rightarrow> memLSNode" where
  "erase_idx n = n\<lparr>byExpiryIndex := 0\<rparr>"

definition same_but_idx :: "memLS \<Rightarrow> memLS \<Rightarrow> bool" where
  "same_but_idx m m' \<longleftrightarrow>
     nalloc m' = nalloc m \<and> byName m' = byName m \<and> byToken m' = byToken m \<and> gen m' = gen m \<and>
     (\<forall>a. erase_idx (nodes m' a) = erase_idx (nodes m a))"

text \<open>
  Two lock systems that differ only in the name index, which may have lost entries, and
  in the nodes' reference counts, as before and after the walk of \<^verbatim>\<open>remove\<close>.
\<close>

definition erase_rc :: "memLSNode \<Rightarrow> memLSNode" where
  "erase_rc n = n\<lparr>refCount := 0\<rparr>"

definition rc_frame :: "memLS \<Rightarrow> memLS \<Rightarrow> bool" where
  "rc_frame m m' \<longleftrightarrow>
     nalloc m' = nalloc m \<and> byToken m' = byToken m \<and> gen m' = gen m \<and>
     byExpiry m' = byExpiry m \<and> byName m' \<subseteq>\<^sub>m byName m \<and>
     (\<forall>a. erase_rc (nodes m' a) = erase_rc (nodes m a))"

text \<open>
  Matching as the specification words it: a lock covers a name when its root is the
  name, or when it has infinite depth and its root is \<^verbatim>\<open>/\<close> or the root followed by a
  slash is a prefix of the name. \<open>resolve\<close> takes the first condition, in list order,
  whose token names a node that is not held and whose lock covers the name.
\<close>

definition covers :: "LockDetails \<Rightarrow> string \<Rightarrow> bool" where
  "covers d name \<longleftrightarrow>
     Root d = name \<or> (\<not> ZeroDepth d \<and> (Root d = ''/'' \<or> prefix (Root d @ ''/'') name))"

definition matching :: "memLS \<Rightarrow> string \<Rightarrow> Condition \<Rightarrow> bool" where
  "matching m name c =
     (case byToken m (Token c) of
        None \<Rightarrow> False
      | Some n \<Rightarrow> \<not> held (nodes m n) \<and> covers (details (nodes m n)) name)"

definition resolve :: "string \<Rightarrow> Condition list \<Rightarrow> memLS \<Rightarrow> addr option" where
  "resolve name conditions m =
     (case find (matching m name) conditions of None \<Rightarrow> None | Some c \<Rightarrow> byToken m (Token c))"


subsection \<open>A lock that is deleted while a confirmation holds it\<close>

text \<open>
  The lock systems along one sequence of calls on a new lock system whose token counter
  starts at 0; instants are written in seconds after the zero instant:
  \<^verbatim>\<open>Create(0, /a/b)\<close> of a zero-depth lock that never expires (\<open>sc1\<close>),
  \<^verbatim>\<open>Create(0, /a)\<close> of a zero-depth lock that lasts 10 seconds (\<open>sc2\<close>),
  \<^verbatim>\<open>Confirm(1, /a)\<close> with the token \<^verbatim>\<open>2\<close> of that lock (\<open>sc3\<close>),
  \<^verbatim>\<open>Delete(2, /a)\<close> (\<open>sc4\<close>), the same \<^verbatim>\<open>Create\<close> again at 3 (\<open>sc5\<close>), the
  \<^verbatim>\<open>release\<close> that the \<^verbatim>\<open>Confirm\<close> returned (\<open>sc6\<close>) and \<^verbatim>\<open>Unlock(5)\<close> of the token
  \<^verbatim>\<open>3\<close> (\<open>sc7\<close>); \<open>sc8\<close> is \<open>sc7\<close> after one turn of the expiry sweep at 13 or later.
  The node of \<^verbatim>\<open>/a/b\<close> is at address 0, that of \<^verbatim>\<open>/a\<close> at 1 and that of \<^verbatim>\<open>/\<close> at 2.
\<close>

definition dAB :: LockDetails where
  "dAB = \<lparr>Root = ''/a/b'', Duration = - 1, OwnerXML = [], ZeroDepth = True\<rparr>"

definition dA10 :: LockDetails where
  "dA10 = \<lparr>Root = ''/a'', Duration = 10 * Second, OwnerXML = [], ZeroDepth = True\<rparr>"

definition cond2 :: Condition where
  "cond2 = \<lparr>NotC = False, Token = ''2'', ETag = []\<rparr>"

definition scene ::
  "memLSNode \<Rightarrow> int \<Rightarrow> (string \<rightharpoonup> addr) \<Rightarrow> (string \<rightharpoonup> addr) \<Rightarrow> 64 word \<Rightarrow> addr list \<Rightarrow> memLS" where
  "scene nodeA rcRoot names tokens g queue =
     \<lparr>nodes = (\<lambda>a. newNode [])
        (0 := \<lparr>details = dAB, token = ''1'', refCount = 1, expiry = 0, byExpiryIndex = - 1,
               held = False\<rparr>,
         1 := nodeA,
         2 := \<lparr>details = \<lparr>Root = ''/'', Duration = 0, OwnerXML = [], ZeroDepth = False\<rparr>,
               token = [], refCount = rcRoot, expiry = 0, byExpiryIndex = - 1, held = False\<rparr>),
      nalloc = 3, byName = names, byToken = tokens, gen = g, byExpiry = queue\<rparr>"

definition allNames :: "string \<rightharpoonup> addr" where
  "allNames = [''/a/b'' \<mapsto> 0, ''/a'' \<mapsto> 1, ''/'' \<mapsto> 2]"

definition sc1 :: memLS where
  "sc1 = scene ((newNode ''/a'')\<lparr>refCount := 1\<rparr>) 1 allNames [''1'' \<mapsto> 0] 1 []"

definition sc2 :: memLS where
  "sc2 = scene \<lparr>details = dA10, token = ''2'', refCount = 2, expiry = 10 * Second,
                 byExpiryIndex = 0, held = False\<rparr>
           2 allNames [''1'' \<mapsto> 0, ''2'' \<mapsto> 1] 2 [1]"

definition sc3 :: memLS where
  "sc3 = scene \<lparr>details = dA10, token = ''2'', refCount = 2, expiry = 10 * Second,
                 byExpiryIndex = - 1, held = True\<rparr>
           2 allNames [''1'' \<mapsto> 0, ''2'' \<mapsto> 1] 2 []"

definition sc4 :: memLS where
  "sc4 = scene \<lparr>details = dA10, token = [], refCount = 1, expiry = 10 * Second,
                 byExpiryIndex = - 1, held = True\<rparr>
           1 allNames [''1'' \<mapsto> 0] 2 []"

definition sc5 :: memLS where
  "sc5 = scene \<lparr>details = dA10, token = ''3'', refCount = 2, expiry = 13 * Second,
                 byExpiryIndex = 0, held = True\<rparr>
           2 allNames [''1'' \<mapsto> 0, ''3'' \<mapsto> 1] 3 [1]"

definition sc6 :: memLS where
  "sc6 = scene \<lparr>details = dA10, token = ''3'', refCount = 2, expiry = 13 * Second,
                 byExpiryIndex = 1, held = False\<rparr>
           2 allNames [''1'' \<mapsto> 0, ''3'' \<mapsto> 1] 3 [1, 1]"

definition sc7 :: memLS where
  "sc7 = scene \<lparr>details = dA10, token = [], refCount = 1, expiry = 13 * Second,
                 byExpiryIndex = - 1, held = False\<rparr>
           1 allNames [''1'' \<mapsto> 0] 3 [1]"

definition sc8 :: memLS where
  "sc8 = scene \<lparr>details = dA10, token = [], refCount = 0, expiry = 13 * Second,
                 byExpiryIndex = - 1, held = False\<rparr>
           0 [''/a/b'' \<mapsto> 0] [''1'' \<mapsto> 0] 3 [1]"

text \<open>
  \<open>sc2e\<close> is \<open>sc2\<close> after the sweep at 10 seconds or later has removed the lock on
  \<^verbatim>\<open>/a\<close>, and \<open>sc5e\<close> is \<open>sc5\<close> after the sweep at 13 seconds or later.
\<close>

definition sc5e :: memLS where
  "sc5e = scene \<lparr>details = dA10, token = [], refCount = 1, expiry = 13 * Second,
                  byExpiryIndex = - 1, held = True\<rparr>
            1 allNames [''1'' \<mapsto> 0] 3 []"


subsection \<open>Delete on a name whose node carries no lock\<close>

text \<open>
  \<open>an1\<close> is \<open>sc1\<close> after \<^verbatim>\<open>Delete(0, /a)\<close>, and \<open>an2\<close> is \<open>an1\<close> after the \<^verbatim>\<open>Create\<close> of an
  infinite-depth lock at \<^verbatim>\<open>/a\<close> that never expires; \<open>dC\<close> is a lock at \<^verbatim>\<open>/c\<close>.
\<close>

definition dAinf :: LockDetails where
  "dAinf = \<lparr>Root = ''/a'', Duration = - 1, OwnerXML = [], ZeroDepth = False\<rparr>"

definition dC :: LockDetails where
  "dC = \<lparr>Root = ''/c'', Duration = - 1, OwnerXML = [], ZeroDepth = True\<rparr>"

definition an1 :: memLS where
  "an1 = scene (newNode ''/a'') 0 [''/a/b'' \<mapsto> 0] [''1'' \<mapsto> 0] 1 []"

definition an2 :: memLS where
  "an2 =
     \<lparr>nodes = (nodes an1)
        (3 := \<lparr>details = dAinf, token = ''2'', refCount = 1, expiry = 0, byExpiryIndex = - 1,
               held = False\<rparr>,
         4 := \<lparr>details = \<lparr>Root = ''/'', Duration = 0, OwnerXML = [], ZeroDepth = False\<rparr>,
               token = [], refCount = 1, expiry = 0, byExpiryIndex = - 1, held = False\<rparr>),
      nalloc = 5, byName = [''/a/b'' \<mapsto> 0, ''/a'' \<mapsto> 3, ''/'' \<mapsto> 4],
      byToken = [''1'' \<mapsto> 0, ''2'' \<mapsto> 3], gen = 2, byExpiry = []\<rparr>"

subsection \<open>Runs of the lock system\<close>







section \<open>Evaluation on concrete inputs\<close>

lemmas eval_defs = Create_def rbind_def obind_def canCreate_def canCreate_visit_def walkToRoot_def
  create_def create_visit_def nextToken_def setNode_def heap_Push_def Push_def NewMemLS_def
  slashClean_def Clean_def FormatUint_def digit_def newNode_def LastIndex_def Let_def
  Swap_def Less_def zeroTime_def Add_def quot_def addSec_def

lemmas eval_simps = collectExpiredNodes.simps walkLoop.simps cleanLoop.simps up.simps
  decimal.simps

lemma exA_created: "Create 0 dA (NewMemLS 0) = Some (Returns (Inr ''1'', exA))"
  by (simp add: eval_defs eval_simps exA_def dA_def fun_eq_iff)

lemma exA_Create_again:
  "Create 1 \<lparr>Root = ''/a'', Duration = 5, OwnerXML = [], ZeroDepth = True\<rparr> exA
     = Some (Returns (Inl ErrLocked, exA))"
  by (simp add: eval_defs eval_simps exA_def dA_def)

lemma exB_created: "Create 0 dB (NewMemLS 0) = Some (Returns (Inr ''1'', exB))"
  by (simp add: eval_defs eval_simps exB_def dB_def fun_eq_iff)

lemma slashClean_a [simp]: "slashClean ''/a'' = ''/a''"
  by (simp add: slashClean_def Clean_def cleanLoop.simps)

lemma slashClean_ab [simp]: "slashClean ''/a/b'' = ''/a/b''"
  by (simp add: slashClean_def Clean_def cleanLoop.simps)

lemma slashClean_abc [simp]: "slashClean ''/a/b/c'' = ''/a/b/c''"
  by (simp add: slashClean_def Clean_def cleanLoop.simps)

section \<open>Timeout headers\<close>

lemma IndexByte_takeWhile:
  "(case IndexByte s c of None \<Rightarrow> s | Some i \<Rightarrow> take i s) = takeWhile (\<lambda>x. x \<noteq> c) s"
  by (induction s) (auto split: option.splits)

lemma HasPrefix_iff: "HasPrefix s pre \<longleftrightarrow> (\<exists>ds. s = pre @ ds)"
  unfolding HasPrefix_def
  by (metis append_eq_conv_conj append_take_drop_id)

lemma ParseInt_digits:
  "ds \<noteq> [] \<Longrightarrow> isDigit (hd ds) \<Longrightarrow>
   ParseInt ds =
     (if list_all isDigit ds \<and> digitsValue ds < 2 ^ 63 then Some (int (digitsValue ds))
      else None)"
  by (auto simp: ParseInt_def Let_def isDigit_def)

lemma TrimLeft_id: "find (\<lambda>r. r \<noteq> [] \<and> prefix r s) spaceRunes = None \<Longrightarrow> TrimLeft s = s"
  by (subst TrimLeft.simps) simp

lemma TrimRight_id: "find (\<lambda>r. r \<noteq> [] \<and> suffix r s) spaceRunes = None \<Longrightarrow> TrimRight s = s"
  by (subst TrimRight.simps) simp

lemma TrimLeft_step:
  "find (\<lambda>r. r \<noteq> [] \<and> prefix r s) spaceRunes \<noteq> None \<Longrightarrow>
   TrimLeft s = TrimLeft (drop (length (the (find (\<lambda>r. r \<noteq> [] \<and> prefix r s) spaceRunes))) s)"
  by (subst TrimLeft.simps) auto

lemma TrimRight_step:
  "find (\<lambda>r. r \<noteq> [] \<and> suffix r s) spaceRunes \<noteq> None \<Longrightarrow>
   TrimRight s =
     TrimRight (take (length s - length (the (find (\<lambda>r. r \<noteq> [] \<and> suffix r s) spaceRunes))) s)"
  by (subst TrimRight.simps) auto

lemmas TrimSpace_eval = TrimSpace_def TrimLeft_id TrimRight_id TrimLeft_step TrimRight_step
  spaceRunes_def suffix_to_prefix

lemmas parseTimeout_eval = parseTimeout_def HasPrefix_def ParseInt_def isDigit_def
  digitsValue_def Let_def less_eq_char_def less_char_def

lemma TrimSpace_Second_120: "TrimSpace ''Second-120'' = ''Second-120''"
  by (simp add: TrimSpace_eval)

lemma TrimSpace_Second_120_spaces: "TrimSpace '' Second-120 '' = ''Second-120''"
  by (simp add: TrimSpace_eval)

lemma TrimSpace_Second_big: "TrimSpace ''Second-4294967296'' = ''Second-4294967296''"
  by (simp add: TrimSpace_eval)

lemma TrimSpace_Infinite: "TrimSpace ''Infinite'' = ''Infinite''"
  by (simp add: TrimSpace_eval)

lemma TrimSpace_garbage: "TrimSpace ''garbage'' = ''garbage''"
  by (simp add: TrimSpace_eval)

lemma parseTimeout_general:
  "parseTimeout s =
     (if s = [] then Inr infiniteTimeout
      else let e = TrimSpace (takeWhile (\<lambda>c. c \<noteq> CHR '','') s)
           in if e = ''Infinite'' then Inr infiniteTimeout
              else if \<exists>ds. e = ''Second-'' @ ds \<and> ds \<noteq> [] \<and> list_all isDigit ds
                          \<and> digitsValue ds \<le> 2 ^ 32 - 1
                   then Inr (int (digitsValue (drop 7 e)) * Second)
                   else Inl errInvalidTimeout)"
proof (cases "s = []")
  case True
  then show ?thesis by (simp add: parseTimeout_def)
next
  case False
  define e where "e = TrimSpace (takeWhile (\<lambda>c. c \<noteq> CHR '','') s)"
  have e: "TrimSpace (case IndexByte s CHR '','' of None \<Rightarrow> s | Some i \<Rightarrow> take i s) = e"
    by (simp add: e_def IndexByte_takeWhile)
  show ?thesis
  proof (cases "e = ''Infinite''")
    case True
    with False e show ?thesis by (simp add: parseTimeout_def Let_def e_def)
  next
    case nInf: False
    show ?thesis
    proof (cases "HasPrefix e ''Second-''")
      case False
      then have "\<not> (\<exists>ds. e = ''Second-'' @ ds \<and> ds \<noteq> [] \<and> list_all isDigit ds
                     \<and> digitsValue ds \<le> 2 ^ 32 - 1)"
        by (auto simp: HasPrefix_iff)
      with False nInf \<open>s \<noteq> []\<close> e show ?thesis
        unfolding parseTimeout_def Let_def e_def[symmetric] by simp
    next
      case True
      then obtain ds where ds: "e = ''Second-'' @ ds" by (auto simp: HasPrefix_iff)
      have d7: "drop 7 e = ds" "drop (length ''Second-'') e = ds" using ds by simp_all
      have ex: "(\<exists>ds'. e = ''Second-'' @ ds' \<and> ds' \<noteq> [] \<and> list_all isDigit ds'
                   \<and> digitsValue ds' \<le> 2 ^ 32 - 1)
                \<longleftrightarrow> (ds \<noteq> [] \<and> list_all isDigit ds \<and> digitsValue ds \<le> 2 ^ 32 - 1)"
        using ds by auto
      show ?thesis
      proof (cases "ds = [] \<or> hd ds < CHR ''0'' \<or> CHR ''9'' < hd ds")
        case True
        then have "\<not> (ds \<noteq> [] \<and> list_all isDigit ds)"
          by (cases ds) (auto simp: isDigit_def)
        with True nInf \<open>s \<noteq> []\<close> e \<open>HasPrefix e ''Second-''\<close> ex d7 show ?thesis
          unfolding parseTimeout_def Let_def e_def[symmetric] by auto
      next
        case False
        then have ne: "ds \<noteq> []" and hd: "isDigit (hd ds)" by (auto simp: isDigit_def)
        have pi: "ParseInt ds =
            (if list_all isDigit ds \<and> digitsValue ds < 2 ^ 63 then Some (int (digitsValue ds))
             else None)"
          by (rule ParseInt_digits[OF ne hd])
        have small: "digitsValue ds \<le> 2 ^ 32 - 1 \<Longrightarrow> digitsValue ds < 2 ^ 63" by simp
        have conv: "(2 ^ 32 - 1 < int (digitsValue ds)) \<longleftrightarrow> \<not> (digitsValue ds \<le> 2 ^ 32 - 1)"
          by auto
        from False nInf \<open>s \<noteq> []\<close> e \<open>HasPrefix e ''Second-''\<close> ex d7 pi ne small conv
        show ?thesis
          unfolding parseTimeout_def Let_def e_def[symmetric] by auto
      qed
    qed
  qed
qed

lemma parseTimeout_120: "parseTimeout ''Second-120'' = Inr (120 * Second)"
  by (simp add: parseTimeout_eval TrimSpace_Second_120)

lemma parseTimeout_too_big: "parseTimeout ''Second-4294967296'' = Inl errInvalidTimeout"
  by (simp add: parseTimeout_eval TrimSpace_Second_big)

lemma parseTimeout_Infinite: "parseTimeout ''Infinite'' = Inr infiniteTimeout"
  by (simp add: parseTimeout_eval TrimSpace_Infinite)

lemma parseTimeout_garbage: "parseTimeout ''garbage'' = Inl errInvalidTimeout"
  by (simp add: parseTimeout_eval TrimSpace_garbage)

section \<open>The expiry queue keeps its index fields\<close>

lemma erase_idx_fields:
  assumes "erase_idx x = erase_idx y"
  shows "details x = details y" "token x = token y" "refCount x = refCount y"
    "expiry x = expiry y" "held x = held y"
proof -
  have "details (erase_idx x) = details (erase_idx y)" using assms by simp
  then show "details x = details y" by (simp add: erase_idx_def)
  have "token (erase_idx x) = token (erase_idx y)" using assms by simp
  then show "token x = token y" by (simp add: erase_idx_def)
  have "refCount (erase_idx x) = refCount (erase_idx y)" using assms by simp
  then show "refCount x = refCount y" by (simp add: erase_idx_def)
  have "expiry (erase_idx x) = expiry (erase_idx y)" using assms by simp
  then show "expiry x = expiry y" by (simp add: erase_idx_def)
  have "held (erase_idx x) = held (erase_idx y)" using assms by simp
  then show "held x = held y" by (simp add: erase_idx_def)
qed

lemma erase_idx_upd [simp]: "erase_idx (n\<lparr>byExpiryIndex := k\<rparr>) = erase_idx n"
  by (simp add: erase_idx_def)

lemma same_but_idx_refl [simp]: "same_but_idx m m"
  by (simp add: same_but_idx_def)

lemma same_but_idx_trans: "same_but_idx m m' \<Longrightarrow> same_but_idx m' m'' \<Longrightarrow> same_but_idx m m''"
  by (simp add: same_but_idx_def)

lemma same_but_idx_fields:
  assumes "same_but_idx m m'"
  shows "nalloc m' = nalloc m" "byName m' = byName m" "byToken m' = byToken m" "gen m' = gen m"
    "details (nodes m' a) = details (nodes m a)" "token (nodes m' a) = token (nodes m a)"
    "refCount (nodes m' a) = refCount (nodes m a)" "expiry (nodes m' a) = expiry (nodes m a)"
    "held (nodes m' a) = held (nodes m a)"
  using assms erase_idx_fields[of "nodes m' a" "nodes m a"]
  by (simp_all add: same_but_idx_def)

lemma idx_ok_distinct: "idx_ok m \<Longrightarrow> distinct (byExpiry m)"
  unfolding idx_ok_def distinct_conv_nth
  by (metis of_nat_eq_iff)

lemma idx_ok_index:
  "idx_ok m \<Longrightarrow> 0 \<le> byExpiryIndex (nodes m a) \<Longrightarrow>
     nat (byExpiryIndex (nodes m a)) < length (byExpiry m) \<and>
     byExpiry m ! nat (byExpiryIndex (nodes m a)) = a"
  unfolding idx_ok_def
  by (metis in_set_conv_nth nat_int neg_0_le_iff_le not_one_le_zero)

lemma Swap_fields [simp]:
  "byExpiry (Swap i j m) = (byExpiry m)[i := byExpiry m ! j, j := byExpiry m ! i]"
  "nalloc (Swap i j m) = nalloc m" "byName (Swap i j m) = byName m"
  "byToken (Swap i j m) = byToken m" "gen (Swap i j m) = gen m"
  by (simp_all add: Swap_def setNode_def Let_def)

lemma Swap_same: "same_but_idx m (Swap i j m)"
  by (simp add: same_but_idx_def) (simp add: Swap_def setNode_def Let_def)

lemma Swap_idx_ok:
  assumes "idx_ok m" "i < length (byExpiry m)" "j < length (byExpiry m)"
  shows "idx_ok (Swap i j m)"
proof -
  let ?h = "byExpiry m"
  let ?h' = "?h[i := ?h ! j, j := ?h ! i]"
  have d: "distinct ?h" by (rule idx_ok_distinct[OF assms(1)])
  have setp: "set ?h' = set ?h"
    using assms(2,3) by (metis set_swap)
  have nth: "\<And>k. k < length ?h \<Longrightarrow> ?h' ! k = (if k = j then ?h ! i else if k = i then ?h ! j else ?h ! k)"
    using assms(2,3) by (simp add: nth_list_update)
  have nodes: "\<And>a. byExpiryIndex (nodes (Swap i j m) a) =
      (if a = ?h ! i then int j else if a = ?h ! j then int i else byExpiryIndex (nodes m a))"
    using assms(2,3) by (simp add: Swap_def setNode_def Let_def nth_list_update)
  have inj: "\<And>k l. k < length ?h \<Longrightarrow> l < length ?h \<Longrightarrow> ?h ! k = ?h ! l \<Longrightarrow> k = l"
    using d by (simp add: nth_eq_iff_index_eq)
  show ?thesis
    unfolding idx_ok_def
  proof (intro conjI allI impI)
    fix k assume k: "k < length (byExpiry (Swap i j m))"
    then have kl: "k < length ?h" by simp
    show "byExpiryIndex (nodes (Swap i j m) (byExpiry (Swap i j m) ! k)) = int k"
      using kl assms inj[of k i] inj[of k j] inj[of i j] nth[OF kl] nodes
      by (auto simp: idx_ok_def)
  next
    fix a assume "a \<notin> set (byExpiry (Swap i j m))"
    then have a: "a \<notin> set ?h" using setp by simp
    with assms have "a \<noteq> ?h ! i" "a \<noteq> ?h ! j" by auto
    with a assms(1) show "byExpiryIndex (nodes (Swap i j m) a) = - 1"
      by (simp add: nodes idx_ok_def)
  qed
qed

lemma Swap_set:
  "i < length (byExpiry m) \<Longrightarrow> j < length (byExpiry m) \<Longrightarrow>
     set (byExpiry (Swap i j m)) = set (byExpiry m) \<and> length (byExpiry (Swap i j m)) = length (byExpiry m)"
  by (simp add: set_swap)

lemma up_keeps:
  "j < length (byExpiry m) \<Longrightarrow>
     same_but_idx m (up j m) \<and> set (byExpiry (up j m)) = set (byExpiry m) \<and>
     length (byExpiry (up j m)) = length (byExpiry m) \<and> (idx_ok m \<longrightarrow> idx_ok (up j m))"
proof (induction j m rule: up.induct)
  case (1 j m)
  define i where "i = (j - 1) div 2"
  have unf: "up j m = (if i = j \<or> \<not> Less m j i then m else up i (Swap i j m))"
    by (subst up.simps) (simp add: Let_def i_def)
  show ?case
  proof (cases "i = j \<or> \<not> Less m j i")
    case True
    then have "up j m = m" unfolding unf by simp
    then show ?thesis by simp
  next
    case False
    have il: "i < length (byExpiry m)" using 1(2) by (simp add: i_def)
    have len: "i < length (byExpiry (Swap i j m))" using il 1(2) by simp
    have ih: "same_but_idx (Swap i j m) (up i (Swap i j m)) \<and>
      set (byExpiry (up i (Swap i j m))) = set (byExpiry (Swap i j m)) \<and>
      length (byExpiry (up i (Swap i j m))) = length (byExpiry (Swap i j m)) \<and>
      (idx_ok (Swap i j m) \<longrightarrow> idx_ok (up i (Swap i j m)))"
      using 1(1)[OF i_def False len] .
    have eq: "up j m = up i (Swap i j m)"
      using False unfolding unf by simp
    have s1: "same_but_idx m (up i (Swap i j m))"
      using same_but_idx_trans[OF Swap_same[of m i j]] ih by blast
    have s2: "set (byExpiry (up i (Swap i j m))) = set (byExpiry m)"
      "length (byExpiry (up i (Swap i j m))) = length (byExpiry m)"
      using ih Swap_set[OF il 1(2)] by simp_all
    have s3: "idx_ok m \<longrightarrow> idx_ok (up i (Swap i j m))"
      using ih Swap_idx_ok[OF _ il 1(2)] by blast
    show ?thesis unfolding eq using s1 s2 s3 by blast
  qed
qed

lemma downLoop_keeps:
  "n \<le> length (byExpiry m) \<Longrightarrow>
     same_but_idx m (snd (downLoop i n m)) \<and>
     set (byExpiry (snd (downLoop i n m))) = set (byExpiry m) \<and>
     length (byExpiry (snd (downLoop i n m))) = length (byExpiry m) \<and>
     (idx_ok m \<longrightarrow> idx_ok (snd (downLoop i n m)))"
proof (induction i n m rule: downLoop.induct)
  case (1 i n m)
  define j1 where "j1 = 2 * i + 1"
  define j where "j = (if j1 + 1 < n \<and> Less m (j1 + 1) j1 then j1 + 1 else j1)"
  have unf: "downLoop i n m =
      (if j1 \<ge> n then (i, m) else if \<not> Less m j i then (i, m) else downLoop j n (Swap i j m))"
    by (subst downLoop.simps) (simp add: Let_def j_def j1_def)
  show ?case
  proof (cases "j1 \<ge> n \<or> \<not> Less m j i")
    case True
    then have "downLoop i n m = (i, m)" unfolding unf by auto
    then show ?thesis by simp
  next
    case False
    then have j1: "\<not> n \<le> j1" and less: "Less m j i" by auto
    have jn: "j < n" using j1 by (auto simp: j_def)
    have jl: "j < length (byExpiry m)" and il: "i < length (byExpiry m)"
      using jn 1(2) j1 by (auto simp: j1_def)
    have len: "n \<le> length (byExpiry (Swap i j m))" using 1(2) il jl by simp
    have eq: "downLoop i n m = downLoop j n (Swap i j m)"
      using j1 less unfolding unf by simp
    have ih: "same_but_idx (Swap i j m) (snd (downLoop j n (Swap i j m))) \<and>
      set (byExpiry (snd (downLoop j n (Swap i j m)))) = set (byExpiry (Swap i j m)) \<and>
      length (byExpiry (snd (downLoop j n (Swap i j m)))) = length (byExpiry (Swap i j m)) \<and>
      (idx_ok (Swap i j m) \<longrightarrow> idx_ok (snd (downLoop j n (Swap i j m))))"
      using 1(1)[OF j1_def j1 j_def _ len] less
      by simp
    have s1: "same_but_idx m (snd (downLoop j n (Swap i j m)))"
      using same_but_idx_trans[OF Swap_same[of m i j]] ih by blast
    have s2: "set (byExpiry (snd (downLoop j n (Swap i j m)))) = set (byExpiry m)"
      "length (byExpiry (snd (downLoop j n (Swap i j m)))) = length (byExpiry m)"
      using ih Swap_set[OF il jl] by simp_all
    have s3: "idx_ok m \<longrightarrow> idx_ok (snd (downLoop j n (Swap i j m)))"
      using ih Swap_idx_ok[OF _ il jl] by blast
    show ?thesis unfolding eq using s1 s2 s3 by blast
  qed
qed

lemma up_above:
  "j < length (byExpiry m) \<Longrightarrow> j < k \<Longrightarrow> byExpiry (up j m) ! k = byExpiry m ! k"
proof (induction j m rule: up.induct)
  case (1 j m)
  define i where "i = (j - 1) div 2"
  have unf: "up j m = (if i = j \<or> \<not> Less m j i then m else up i (Swap i j m))"
    by (subst up.simps) (simp add: Let_def i_def)
  show ?case
  proof (cases "i = j \<or> \<not> Less m j i")
    case True
    then show ?thesis unfolding unf by simp
  next
    case False
    have ij: "i < j" using False by (auto simp: i_def)
    have len: "i < length (byExpiry (Swap i j m))" using ij 1(2) by simp
    have "byExpiry (up i (Swap i j m)) ! k = byExpiry (Swap i j m) ! k"
      using 1(1)[OF i_def False len] ij 1(3) by simp
    also have "\<dots> = byExpiry m ! k" using ij 1(3) by simp
    finally show ?thesis using False unfolding unf by simp
  qed
qed

lemma downLoop_above:
  "n \<le> length (byExpiry m) \<Longrightarrow> n \<le> k \<Longrightarrow>
     byExpiry (snd (downLoop i n m)) ! k = byExpiry m ! k"
proof (induction i n m rule: downLoop.induct)
  case (1 i n m)
  define j1 where "j1 = 2 * i + 1"
  define j where "j = (if j1 + 1 < n \<and> Less m (j1 + 1) j1 then j1 + 1 else j1)"
  have unf: "downLoop i n m =
      (if j1 \<ge> n then (i, m) else if \<not> Less m j i then (i, m) else downLoop j n (Swap i j m))"
    by (subst downLoop.simps) (simp add: Let_def j_def j1_def)
  show ?case
  proof (cases "j1 \<ge> n \<or> \<not> Less m j i")
    case True
    then have "downLoop i n m = (i, m)" unfolding unf by auto
    then show ?thesis by simp
  next
    case False
    then have j1: "\<not> n \<le> j1" and less: "Less m j i" by auto
    have jn: "j < n" using j1 by (auto simp: j_def)
    have ij: "i < n" using j1 by (simp add: j1_def)
    have len: "n \<le> length (byExpiry (Swap i j m))" using 1(2) by simp
    have eq: "downLoop i n m = downLoop j n (Swap i j m)"
      using j1 less unfolding unf by simp
    have "byExpiry (snd (downLoop j n (Swap i j m))) ! k = byExpiry (Swap i j m) ! k"
      using 1(1)[OF j1_def j1 j_def _ len 1(3)] less by simp
    also have "\<dots> = byExpiry m ! k" using jn ij 1(3) by simp
    finally show ?thesis unfolding eq .
  qed
qed

lemma Push_props:
  "byExpiry (Push x m) = byExpiry m @ [x]" "same_but_idx m (Push x m)"
  by (simp_all add: Push_def setNode_def Let_def same_but_idx_def)

lemma Push_idx_ok:
  assumes "idx_ok m" "x \<notin> set (byExpiry m)"
  shows "idx_ok (Push x m)"
  unfolding idx_ok_def
proof (intro conjI allI impI)
  fix i assume "i < length (byExpiry (Push x m))"
  then have i: "i \<le> length (byExpiry m)" by (simp add: Push_props)
  show "byExpiryIndex (nodes (Push x m) (byExpiry (Push x m) ! i)) = int i"
  proof (cases "i = length (byExpiry m)")
    case True
    then show ?thesis by (simp add: Push_def setNode_def Let_def)
  next
    case False
    with i have il: "i < length (byExpiry m)" by simp
    then have "byExpiry m ! i \<noteq> x" using assms(2) by (metis nth_mem)
    with il assms(1) show ?thesis
      by (simp add: Push_def setNode_def Let_def nth_append idx_ok_def)
  qed
next
  fix a assume "a \<notin> set (byExpiry (Push x m))"
  then have "a \<noteq> x" "a \<notin> set (byExpiry m)" by (simp_all add: Push_props)
  with assms(1) show "byExpiryIndex (nodes (Push x m) a) = - 1"
    by (simp add: Push_def setNode_def Let_def idx_ok_def)
qed

lemma Pop_props:
  "byExpiry (snd (Pop m)) = take (length (byExpiry m) - 1) (byExpiry m)"
  "same_but_idx m (snd (Pop m))"
  by (simp_all add: Pop_def setNode_def Let_def same_but_idx_def)

lemma Pop_idx_ok:
  assumes "idx_ok m" "byExpiry m \<noteq> []"
  shows "idx_ok (snd (Pop m))"
proof -
  let ?h = "byExpiry m"
  let ?n = "length ?h - 1"
  have d: "distinct ?h" by (rule idx_ok_distinct[OF assms(1)])
  have nl: "?n < length ?h" using assms(2) by (cases ?h) simp_all
  have notin: "?h ! ?n \<notin> set (take ?n ?h)"
  proof
    assume "?h ! ?n \<in> set (take ?n ?h)"
    then obtain k where k: "k < ?n" "take ?n ?h ! k = ?h ! ?n"
      by (auto simp: in_set_conv_nth)
    then have "?h ! k = ?h ! ?n" by simp
    with d k nl show False by (simp add: nth_eq_iff_index_eq)
  qed
  have nodes: "\<And>a. byExpiryIndex (nodes (snd (Pop m)) a) =
      (if a = ?h ! ?n then - 1 else byExpiryIndex (nodes m a))"
    by (simp add: Pop_def setNode_def Let_def)
  show ?thesis
    unfolding idx_ok_def
  proof (intro conjI allI impI)
    fix i assume "i < length (byExpiry (snd (Pop m)))"
    then have i: "i < ?n" by (simp add: Pop_props)
    then have ne: "?h ! i \<noteq> ?h ! ?n" using d nl by (simp add: nth_eq_iff_index_eq)
    from i nl assms(1) have "byExpiryIndex (nodes m (?h ! i)) = int i"
      by (simp add: idx_ok_def)
    with i ne show "byExpiryIndex (nodes (snd (Pop m)) (byExpiry (snd (Pop m)) ! i)) = int i"
      by (simp add: nodes Pop_props)
  next
    fix a assume a: "a \<notin> set (byExpiry (snd (Pop m)))"
    show "byExpiryIndex (nodes (snd (Pop m)) a) = - 1"
    proof (cases "a = ?h ! ?n")
      case True
      then show ?thesis by (simp add: nodes)
    next
      case False
      have "take (Suc ?n) ?h = take ?n ?h @ [?h ! ?n]"
        using nl by (rule take_Suc_conv_app_nth)
      moreover have "Suc ?n = length ?h" using nl by simp
      ultimately have "?h = take ?n ?h @ [?h ! ?n]" by simp
      then have "set ?h = set (take ?n ?h @ [?h ! ?n])" by simp
      then have "set ?h = insert (?h ! ?n) (set (take ?n ?h))" by simp
      with a False have "a \<notin> set ?h" by (simp add: Pop_props)
      with assms(1) False show ?thesis by (simp add: nodes idx_ok_def)
    qed
  qed
qed

lemma heap_Push_props:
  assumes "x \<notin> set (byExpiry m)"
  shows "same_but_idx m (heap_Push x m)"
    "set (byExpiry (heap_Push x m)) = insert x (set (byExpiry m))"
    "length (byExpiry (heap_Push x m)) = Suc (length (byExpiry m))"
    "idx_ok m \<Longrightarrow> idx_ok (heap_Push x m)"
proof -
  let ?m1 = "Push x m"
  have l: "length (byExpiry ?m1) - 1 < length (byExpiry ?m1)" by (simp add: Push_props)
  note k = up_keeps[OF l]
  show "same_but_idx m (heap_Push x m)"
    using k same_but_idx_trans[OF Push_props(2)[of m x]] by (simp add: heap_Push_def Let_def)
  show "set (byExpiry (heap_Push x m)) = insert x (set (byExpiry m))"
    using k by (simp add: heap_Push_def Let_def Push_props)
  show "length (byExpiry (heap_Push x m)) = Suc (length (byExpiry m))"
    using k by (simp add: heap_Push_def Let_def Push_props)
  show "idx_ok m \<Longrightarrow> idx_ok (heap_Push x m)"
    using k Push_idx_ok[OF _ assms] by (simp add: heap_Push_def Let_def)
qed

lemma distinct_take_last:
  assumes "distinct xs" "xs \<noteq> []"
  shows "set (take (length xs - 1) xs) = set xs - {xs ! (length xs - 1)}"
proof -
  have "xs = butlast xs @ [last xs]" using assms(2) by simp
  then have d: "distinct (butlast xs @ [last xs])" using assms(1) by simp
  have l: "last xs = xs ! (length xs - 1)" using assms(2) by (rule last_conv_nth)
  have "set xs = set (butlast xs @ [last xs])" using assms(2) by simp
  then have "set xs = insert (last xs) (set (butlast xs))" by simp
  moreover have "last xs \<notin> set (butlast xs)" using d by simp
  ultimately have "set (butlast xs) = set xs - {last xs}" by auto
  then show ?thesis by (simp add: butlast_conv_take l)
qed

lemma heap_Remove_props:
  assumes "i < length (byExpiry m)"
  shows "\<exists>m'. heap_Remove i m = Returns m' \<and> same_but_idx m m' \<and>
           length (byExpiry m') = length (byExpiry m) - 1 \<and>
           set (byExpiry m') \<subseteq> set (byExpiry m) \<and>
           (idx_ok m \<longrightarrow> idx_ok m' \<and> set (byExpiry m') = set (byExpiry m) - {byExpiry m ! i})"
proof -
  let ?h = "byExpiry m"
  define n where "n = length ?h - 1"
  define m1 where "m1 = (if n \<noteq> i then
                    (case down i n (Swap i n m) of
                       (moved, m') \<Rightarrow> if \<not> moved then up i m' else m')
                  else m)"
  have nl: "n < length ?h" using assms by (simp add: n_def)
  have "i \<le> n" using assms by (simp add: n_def)
  have res: "heap_Remove i m = Returns (snd (Pop m1))"
    using assms by (simp add: heap_Remove_def Let_def m1_def n_def)
  have m1: "same_but_idx m m1 \<and> set (byExpiry m1) = set ?h \<and>
      length (byExpiry m1) = length ?h \<and> (idx_ok m \<longrightarrow> idx_ok m1) \<and>
      byExpiry m1 ! n = ?h ! i"
  proof (cases "n = i")
    case True
    then show ?thesis by (simp add: m1_def)
  next
    case False
    with \<open>i \<le> n\<close> have "i < n" by simp
    let ?ms = "Swap i n m"
    let ?md = "snd (downLoop i n ?ms)"
    have ms: "same_but_idx m ?ms" "set (byExpiry ?ms) = set ?h"
      "length (byExpiry ?ms) = length ?h" "idx_ok m \<longrightarrow> idx_ok ?ms"
      "byExpiry ?ms ! n = ?h ! i"
      using Swap_same[of m i n] Swap_set[OF assms nl] Swap_idx_ok[OF _ assms nl] nl
      by auto
    have nle: "n \<le> length (byExpiry ?ms)" using nl by simp
    note dk = downLoop_keeps[OF nle, of i] downLoop_above[OF nle le_refl, of i]
    have md: "same_but_idx m ?md" "set (byExpiry ?md) = set ?h"
      "length (byExpiry ?md) = length ?h" "idx_ok m \<longrightarrow> idx_ok ?md"
      "byExpiry ?md ! n = ?h ! i"
      using dk ms same_but_idx_trans[OF ms(1)] by auto
    have il: "i < length (byExpiry ?md)" using md(3) assms by simp
    note uk = up_keeps[OF il] up_above[OF il \<open>i < n\<close>]
    have mu: "same_but_idx m (up i ?md)" "set (byExpiry (up i ?md)) = set ?h"
      "length (byExpiry (up i ?md)) = length ?h" "idx_ok m \<longrightarrow> idx_ok (up i ?md)"
      "byExpiry (up i ?md) ! n = ?h ! i"
      using uk md same_but_idx_trans[OF md(1)] by auto
    have "m1 = ?md \<or> m1 = up i ?md"
      using False by (auto simp: m1_def down_def split: prod.splits)
    with md mu show ?thesis by auto
  qed
  have ne: "byExpiry m1 \<noteq> []" using m1 nl by auto
  have n1: "length (byExpiry m1) - 1 = n" using m1 by (simp add: n_def)
  have "same_but_idx m (snd (Pop m1))"
    using m1 same_but_idx_trans[OF _ Pop_props(2)[of m1]] by blast
  moreover have "length (byExpiry (snd (Pop m1))) = length ?h - 1"
    using m1 nl by (simp add: Pop_props n_def)
  moreover have "set (byExpiry (snd (Pop m1))) \<subseteq> set ?h"
    using m1 by (auto simp: Pop_props dest: in_set_takeD)
  moreover have "idx_ok m \<longrightarrow> idx_ok (snd (Pop m1)) \<and>
      set (byExpiry (snd (Pop m1))) = set ?h - {?h ! i}"
  proof
    assume ok: "idx_ok m"
    then have ok1: "idx_ok m1" using m1 by simp
    from distinct_take_last[OF idx_ok_distinct[OF ok1] ne] n1
    have "set (byExpiry (snd (Pop m1))) = set (byExpiry m1) - {byExpiry m1 ! n}"
      by (simp add: Pop_props)
    with m1 Pop_idx_ok[OF ok1 ne]
    show "idx_ok (snd (Pop m1)) \<and> set (byExpiry (snd (Pop m1))) = set ?h - {?h ! i}"
      by simp
  qed
  ultimately show ?thesis using res by blast
qed

section \<open>Walking to the root\<close>

lemma IndexByte_None: "IndexByte s c = None \<longleftrightarrow> c \<notin> set s"
  by (induction s) auto

lemma IndexByte_least: "IndexByte s c = Some k \<Longrightarrow> j < k \<Longrightarrow> s ! j \<noteq> c"
proof (induction s arbitrary: k j)
  case Nil
  then show ?case by simp
next
  case (Cons x xs)
  show ?case
  proof (cases "x = c")
    case True
    with Cons.prems show ?thesis by simp
  next
    case False
    with Cons.prems obtain k' where k': "IndexByte xs c = Some k'" "k = Suc k'"
      by auto
    show ?thesis
    proof (cases j)
      case 0
      with False show ?thesis by simp
    next
      case (Suc j')
      with Cons.IH[OF k'(1), of j'] k'(2) Cons.prems(2) show ?thesis by simp
    qed
  qed
qed

lemma LastIndex_None: "LastIndex s c = None \<longleftrightarrow> c \<notin> set s"
  using IndexByte_None[of "rev s" c] by (auto simp: LastIndex_def split: option.splits)

lemma LastIndex_greatest:
  assumes "LastIndex s c = Some i" "i < k" "k < length s"
  shows "s ! k \<noteq> c"
proof -
  from assms(1) obtain q where q: "IndexByte (rev s) c = Some q" and i: "i = length s - 1 - q"
    by (auto simp: LastIndex_def split: option.splits)
  from IndexByte_Some[OF q] have ql: "q < length s" by simp
  have "length s - 1 - k < q" using assms(2,3) i ql by arith
  from IndexByte_least[OF q this] have "rev s ! (length s - 1 - k) \<noteq> c" .
  moreover have "rev s ! (length s - 1 - k) = s ! k"
    using assms(3) by (simp add: rev_nth)
  ultimately show ?thesis by simp
qed

lemma rooted_LastIndex: "rooted name \<Longrightarrow> \<exists>i. LastIndex name CHR ''/'' = Some i"
proof -
  assume "rooted name"
  then have "CHR ''/'' \<in> set name" by (cases name) (auto simp: rooted_def)
  then show ?thesis using LastIndex_None[of name "CHR ''/''"] by (cases "LastIndex name CHR ''/''") auto
qed

lemma rooted_parent:
  assumes "rooted name" "LastIndex name CHR ''/'' = Some i"
  shows "rooted (if take i name = [] then ''/'' else take i name)"
  using assms by (cases name) (auto simp: rooted_def hd_take)

lemma rooted_slash [simp]: "rooted ''/''"
  by (simp add: rooted_def)

lemma walkNames_slash [simp]: "walkNames ''/'' = [''/'']"
  by (subst walkNames.simps) simp

lemma walkNames_step:
  "name \<noteq> ''/'' \<Longrightarrow> LastIndex name CHR ''/'' = Some i \<Longrightarrow>
     walkNames name = name # walkNames (if take i name = [] then ''/'' else take i name)"
  by (subst walkNames.simps) simp

lemma walkNames_hd: "\<exists>ns. walkNames name = name # ns"
  by (subst walkNames.simps) (auto split: option.splits)

lemma walkNames_rooted: "rooted name \<Longrightarrow> n \<in> set (walkNames name) \<Longrightarrow> rooted n"
proof (induction name rule: walkNames.induct)
  case (1 name)
  show ?case
  proof (cases "name = ''/''")
    case True
    with 1(3) show ?thesis by simp
  next
    case False
    from rooted_LastIndex[OF 1(2)] obtain i where i: "LastIndex name CHR ''/'' = Some i" by blast
    let ?p = "if take i name = [] then ''/'' else take i name"
    have "n = name \<or> n \<in> set (walkNames ?p)"
      using 1(3) walkNames_step[OF False i] by auto
    then show ?thesis
    proof
      assume "n = name" with 1(2) show ?thesis by simp
    next
      assume "n \<in> set (walkNames ?p)"
      from 1(1)[OF False i rooted_parent[OF 1(2) i] this] show ?thesis .
    qed
  qed
qed

lemma walkLoop_all:
  assumes "\<And>n b s. fst (f n b s)"
  shows "rooted name \<Longrightarrow>
     walkLoop name first f s = Returns (True, walkFold f first (walkNames name) s)"
proof (induction name arbitrary: first s rule: walkNames.induct)
  case (1 name)
  obtain ok s' where f: "f name first s = (ok, s')" by (cases "f name first s")
  with assms[of name first s] have ok: "ok" by simp
  show ?case
  proof (cases "name = ''/''")
    case True
    with f ok show ?thesis by (subst walkLoop.simps) simp
  next
    case False
    from rooted_LastIndex[OF 1(2)] obtain i where i: "LastIndex name CHR ''/'' = Some i" by blast
    let ?p = "if take i name = [] then ''/'' else take i name"
    have "walkLoop name first f s = walkLoop ?p False f s'"
      using f ok False i by (subst walkLoop.simps) simp
    also have "\<dots> = Returns (True, walkFold f False (walkNames ?p) s')"
      by (rule 1(1)[OF False i rooted_parent[OF 1(2) i]])
    also have "walkFold f False (walkNames ?p) s' = walkFold f first (walkNames name) s"
      using f by (simp add: walkNames_step[OF False i])
    finally show ?thesis .
  qed
qed

text \<open>A visitor without effects: the walk returns whether every visited name passes.\<close>

lemma walkLoop_pure:
  "rooted name \<Longrightarrow>
     walkLoop name first (\<lambda>n b u. (P n b, u)) () =
       Returns (P name first \<and> (\<forall>n \<in> set (tl (walkNames name)). P n False), ())"
proof (induction name arbitrary: first rule: walkNames.induct)
  case (1 name)
  show ?case
  proof (cases "name = ''/''")
    case True
    then show ?thesis by (subst walkLoop.simps) simp
  next
    case False
    from rooted_LastIndex[OF 1(2)] obtain i where i: "LastIndex name CHR ''/'' = Some i" by blast
    let ?p = "if take i name = [] then ''/'' else take i name"
    obtain ns where ns: "walkNames ?p = ?p # ns" using walkNames_hd by blast
    have tl: "set (tl (walkNames name)) = insert ?p (set (tl (walkNames ?p)))"
      using ns by (simp add: walkNames_step[OF False i])
    show ?thesis
    proof (cases "P name first")
      case False
      then show ?thesis by (subst walkLoop.simps) simp
    next
      case True
      have "walkLoop name first (\<lambda>n b u. (P n b, u)) () =
            walkLoop ?p False (\<lambda>n b u. (P n b, u)) ()"
        using True False i by (subst walkLoop.simps) simp
      also have "\<dots> = Returns (P ?p False \<and> (\<forall>n \<in> set (tl (walkNames ?p)). P n False), ())"
        by (rule 1(1)[OF False i rooted_parent[OF 1(2) i]])
      finally show ?thesis using True tl by simp
    qed
  qed
qed

section \<open>Cleaned names are rooted\<close>

lemma backtrack_bounds:
  "dotdot \<le> w \<Longrightarrow> dotdot \<le> backtrack out dotdot w \<and> backtrack out dotdot w \<le> w"
proof (induction out dotdot w rule: backtrack.induct)
  case (1 out dotdot w)
  show ?case
  proof (cases "w > dotdot \<and> out ! w \<noteq> CHR ''/''")
    case True
    then have le: "dotdot \<le> w - 1" by auto
    have eq: "backtrack out dotdot w = backtrack out dotdot (w - 1)"
      using True by (subst backtrack.simps) simp
    from 1(1)[OF True le] show ?thesis unfolding eq by arith
  next
    case False
    then have "backtrack out dotdot w = w" by (subst backtrack.simps) auto
    with 1(2) show ?thesis by simp
  qed
qed

lemma cleanLoop_rooted_aux:
  "b \<Longrightarrow> out \<noteq> [] \<Longrightarrow> hd out = CHR ''/'' \<Longrightarrow> 1 \<le> dotdot \<Longrightarrow>
     rooted (cleanLoop b r out dotdot)"
proof (induction b r out dotdot rule: cleanLoop.induct)
  case (1 b out dotdot)
  then show ?case by (simp add: cleanLoop.simps rooted_def)
next
  case (2 b c cs out dotdot)
  note IH = "2.IH" and pr0 = "2.prems"
  from pr0 have b: "b" by simp
  note pr = pr0(2-4)
  define DOT where "DOT \<longleftrightarrow> c = CHR ''.'' \<and> (cs = [] \<or> hd cs = CHR ''/'')"
  define DD where
    "DD \<longleftrightarrow> c = CHR ''.'' \<and> hd cs = CHR ''.'' \<and> (tl cs = [] \<or> hd (tl cs) = CHR ''/'')"
  define bt where "bt = take (backtrack out dotdot (length out - 1)) out"
  define out' where
    "out' = (if (b \<and> length out \<noteq> 1) \<or> (\<not> b \<and> length out \<noteq> 0) then out @ ''/'' else out)"
  define el where "el = out' @ c # takeWhile (\<lambda>x. x \<noteq> CHR ''/'') cs"
  have unf: "cleanLoop b (c # cs) out dotdot =
     (if c = CHR ''/'' then cleanLoop b cs out dotdot
      else if DOT then cleanLoop b cs out dotdot
      else if DD then
        (if length out > dotdot then cleanLoop b (tl cs) bt dotdot
         else if \<not> b then
           cleanLoop b (tl cs) ((if length out > 0 then out @ ''/'' else out) @ ''..'')
             (length ((if length out > 0 then out @ ''/'' else out) @ ''..''))
         else cleanLoop b (tl cs) out dotdot)
      else cleanLoop b (dropWhile (\<lambda>x. x \<noteq> CHR ''/'') cs) el dotdot)"
    unfolding DOT_def DD_def bt_def out'_def el_def
    by (rule cleanLoop.simps(2)[unfolded Let_def])
  have bt: "length out > dotdot \<Longrightarrow> bt \<noteq> [] \<and> hd bt = CHR ''/''"
  proof -
    assume l: "length out > dotdot"
    then have "dotdot \<le> length out - 1" by simp
    from backtrack_bounds[OF this, of out] pr(3)
    have "1 \<le> backtrack out dotdot (length out - 1)" by simp
    with pr(1,2) show ?thesis by (cases out) (auto simp: hd_take bt_def)
  qed
  have o': "el \<noteq> []" "hd el = CHR ''/''"
    using pr(1,2) by (auto simp: hd_append el_def out'_def)
  show ?case
  proof (cases "c = CHR ''/''")
    case True
    with IH(1)[OF True b pr] show ?thesis unfolding unf by simp
  next
    case slash: False
    show ?thesis
    proof (cases DOT)
      case True
      with IH(2)[OF slash True[unfolded DOT_def] b pr] slash show ?thesis unfolding unf by simp
    next
      case dot: False
      show ?thesis
      proof (cases DD)
        case True
        show ?thesis
        proof (cases "length out > dotdot")
          case l: True
          from bt[OF l] have b1: "bt \<noteq> []" and b2: "hd bt = CHR ''/''" by simp_all
          from IH(3)[OF slash dot[unfolded DOT_def] True[unfolded DD_def] l b
              b1[unfolded bt_def] b2[unfolded bt_def] pr(3)]
          show ?thesis unfolding unf using slash dot True l by (simp add: bt_def)
        next
          case l: False
          from IH(5)[OF slash dot[unfolded DOT_def] True[unfolded DD_def] l _ b pr] b
          show ?thesis unfolding unf using slash dot True l by simp
        qed
      next
        case dd: False
        from IH(6)[OF slash dot[unfolded DOT_def] dd[unfolded DD_def] out'_def b
            o'[unfolded el_def] pr(3)]
        show ?thesis unfolding unf using slash dot dd by (simp add: el_def)
      qed
    qed
  qed
qed

lemma Clean_rooted: "rooted path \<Longrightarrow> rooted (Clean path)"
proof -
  assume r: "rooted path"
  have "rooted (cleanLoop True (tl path) ''/'' 1)"
    by (rule cleanLoop_rooted_aux[OF TrueI]) simp_all
  with r show ?thesis by (auto simp: Clean_def rooted_def Let_def)
qed

lemma slashClean_rooted: "rooted (slashClean name)"
  unfolding slashClean_def by (rule Clean_rooted) (auto simp: rooted_def)

section \<open>Removing a node\<close>

lemma erase_rc_fields:
  assumes "erase_rc x = erase_rc y"
  shows "details x = details y" "token x = token y" "byExpiryIndex x = byExpiryIndex y"
    "expiry x = expiry y" "held x = held y"
proof -
  have "details (erase_rc x) = details (erase_rc y)" using assms by simp
  then show "details x = details y" by (simp add: erase_rc_def)
  have "token (erase_rc x) = token (erase_rc y)" using assms by simp
  then show "token x = token y" by (simp add: erase_rc_def)
  have "byExpiryIndex (erase_rc x) = byExpiryIndex (erase_rc y)" using assms by simp
  then show "byExpiryIndex x = byExpiryIndex y" by (simp add: erase_rc_def)
  have "expiry (erase_rc x) = expiry (erase_rc y)" using assms by simp
  then show "expiry x = expiry y" by (simp add: erase_rc_def)
  have "held (erase_rc x) = held (erase_rc y)" using assms by simp
  then show "held x = held y" by (simp add: erase_rc_def)
qed

lemma rc_frame_refl [simp]: "rc_frame m m"
  by (simp add: rc_frame_def)

lemma rc_frame_trans: "rc_frame m m' \<Longrightarrow> rc_frame m' m'' \<Longrightarrow> rc_frame m m''"
  unfolding rc_frame_def by (auto intro: map_le_trans)

lemma rc_frame_fields:
  assumes "rc_frame m m'"
  shows "nalloc m' = nalloc m" "byToken m' = byToken m" "gen m' = gen m"
    "byExpiry m' = byExpiry m" "byName m' \<subseteq>\<^sub>m byName m"
    "details (nodes m' a) = details (nodes m a)" "token (nodes m' a) = token (nodes m a)"
    "byExpiryIndex (nodes m' a) = byExpiryIndex (nodes m a)"
    "expiry (nodes m' a) = expiry (nodes m a)" "held (nodes m' a) = held (nodes m a)"
  using assms erase_rc_fields[of "nodes m' a" "nodes m a"]
  by (simp_all add: rc_frame_def)

lemma remove_visit_frame: "rc_frame m (snd (remove_visit name0 first m))"
  by (auto simp: remove_visit_def rc_frame_def setNode_def Let_def erase_rc_def map_le_def
      split: option.splits)

lemma remove_visit_fst [simp]: "fst (remove_visit name0 first m)"
  by (simp add: remove_visit_def Let_def split: option.splits)

lemma walkFold_remove_frame: "rc_frame m (walkFold remove_visit first ns m)"
proof (induction ns arbitrary: first m)
  case Nil
  show ?case by simp
next
  case (Cons n ns)
  show ?case
    using rc_frame_trans[OF remove_visit_frame[of m n first] Cons.IH] by simp
qed

lemma rc_frame_idx_ok: "rc_frame m m' \<Longrightarrow> idx_ok m \<Longrightarrow> idx_ok m'"
  unfolding idx_ok_def using rc_frame_fields(4,8)[of m m'] by simp

lemma same_but_idx_wf:
  assumes "wf_memLS m" "same_but_idx m m'" "idx_ok m'"
    "set (byExpiry m') \<subseteq> set (byExpiry m)"
  shows "wf_memLS m'"
  using assms same_but_idx_fields[OF assms(2)]
  unfolding wf_memLS_def by (simp add: subset_iff)

lemma rc_frame_wf:
  assumes "wf_memLS m" "rc_frame m m'"
  shows "wf_memLS m'"
proof -
  note f = rc_frame_fields[OF assms(2)]
  have n: "\<forall>name a. byName m' name = Some a \<longrightarrow> byName m name = Some a"
    using f(5) by (auto simp: map_le_def dom_def)
  have "\<forall>name a. byName m' name = Some a \<longrightarrow>
          a < nalloc m' \<and> Root (details (nodes m' a)) = name"
    using assms(1) n unfolding wf_memLS_def f by blast
  then show ?thesis
    using assms(1) rc_frame_idx_ok[OF assms(2)]
    unfolding wf_memLS_def by (simp add: f)
qed

section \<open>Reference counts along the walk\<close>

lemma walkNames_shorter:
  "rooted name \<Longrightarrow> n \<in> set (tl (walkNames name)) \<Longrightarrow> length n < length name"
proof (induction name rule: walkNames.induct)
  case (1 name)
  show ?case
  proof (cases "name = ''/''")
    case True
    with 1(3) show ?thesis by simp
  next
    case False
    from rooted_LastIndex[OF 1(2)] obtain i where i: "LastIndex name CHR ''/'' = Some i" by blast
    let ?p = "if take i name = [] then ''/'' else take i name"
    from LastIndex_Some[OF i] have il: "i < length name" "name ! i = CHR ''/''" by auto
    have pl: "length ?p < length name"
    proof (cases "take i name = []")
      case True
      with il have "i = 0" by auto
      with il False have "1 < length name" by (cases name) (auto simp: neq_Nil_conv)
      with True show ?thesis by simp
    next
      case False
      with il show ?thesis by simp
    qed
    obtain ns where ns: "walkNames ?p = ?p # ns" using walkNames_hd by blast
    have "n = ?p \<or> n \<in> set (tl (walkNames ?p))"
      using 1(3) ns by (simp add: walkNames_step[OF False i])
    then show ?thesis
    proof
      assume "n = ?p" with pl show ?thesis by simp
    next
      assume "n \<in> set (tl (walkNames ?p))"
      from 1(1)[OF False i rooted_parent[OF 1(2) i] this] pl show ?thesis by simp
    qed
  qed
qed

lemma walkNames_distinct: "rooted name \<Longrightarrow> distinct (walkNames name)"
proof (induction name rule: walkNames.induct)
  case (1 name)
  show ?case
  proof (cases "name = ''/''")
    case True
    then show ?thesis by simp
  next
    case False
    from rooted_LastIndex[OF 1(2)] obtain i where i: "LastIndex name CHR ''/'' = Some i" by blast
    let ?p = "if take i name = [] then ''/'' else take i name"
    have eq: "walkNames name = name # walkNames ?p" by (rule walkNames_step[OF False i])
    have "name \<notin> set (walkNames ?p)"
    proof
      assume "name \<in> set (walkNames ?p)"
      then have "name \<in> set (tl (walkNames name))" by (simp add: eq)
      from walkNames_shorter[OF 1(2) this] show False by simp
    qed
    with 1(1)[OF False i rooted_parent[OF 1(2) i]] show ?thesis by (simp add: eq)
  qed
qed

text \<open>
  What the walk of \<^verbatim>\<open>remove\<close> does on distinct names, when each name in the index is
  the root of its own node: every indexed node on the walk loses one reference and
  leaves the index at zero.
\<close>

lemma walkFold_remove_effect:
  assumes "distinct ns"
    and "\<forall>name a. byName m name = Some a \<longrightarrow> Root (details (nodes m a)) = name"
  shows "(\<forall>name. byName (walkFold remove_visit first ns m) name =
            (if name \<in> set ns then
               (case byName m name of
                  None \<Rightarrow> None
                | Some x \<Rightarrow> if refCount (nodes m x) = 1 then None else Some x)
             else byName m name)) \<and>
         (\<forall>a. refCount (nodes (walkFold remove_visit first ns m) a) =
            (if \<exists>name \<in> set ns. byName m name = Some a then refCount (nodes m a) - 1
             else refCount (nodes m a)))"
  using assms
proof (induction ns arbitrary: first m)
  case Nil
  show ?case by simp
next
  case (Cons n ns)
  define m1 where "m1 = snd (remove_visit n first m)"
  have inj: "\<And>name name' a. byName m name = Some a \<Longrightarrow> byName m name' = Some a \<Longrightarrow> name = name'"
    using Cons.prems(2) by metis
  have b1: "\<And>name. byName m1 name =
      (if name = n then
         (case byName m n of None \<Rightarrow> None
          | Some x \<Rightarrow> if refCount (nodes m x) = 1 then None else Some x)
       else byName m name)"
    by (auto simp: m1_def remove_visit_def setNode_def Let_def split: option.splits)
  have r1: "\<And>a. refCount (nodes m1 a) =
      (if byName m n = Some a then refCount (nodes m a) - 1 else refCount (nodes m a))"
    by (auto simp: m1_def remove_visit_def setNode_def Let_def split: option.splits)
  have fr: "rc_frame m m1" unfolding m1_def by (rule remove_visit_frame)
  have inv1: "\<forall>name a. byName m1 name = Some a \<longrightarrow> Root (details (nodes m1 a)) = name"
    using Cons.prems(2) rc_frame_fields(6)[OF fr]
    by (auto simp: b1 split: if_splits option.splits)
  have d: "distinct ns" "n \<notin> set ns" using Cons.prems(1) by auto
  note ih = Cons.IH[OF d(1) inv1, of False]
  have eq: "walkFold remove_visit first (n # ns) m = walkFold remove_visit False ns m1"
    by (simp add: m1_def)
  show ?case
    unfolding eq
  proof (intro conjI allI)
    fix name
    show "byName (walkFold remove_visit False ns m1) name =
            (if name \<in> set (n # ns) then
               (case byName m name of
                  None \<Rightarrow> None
                | Some x \<Rightarrow> if refCount (nodes m x) = 1 then None else Some x)
             else byName m name)"
    proof (cases "name \<in> set ns")
      case True
      then have nn: "name \<noteq> n" using d(2) by auto
      have "\<And>x. byName m name = Some x \<Longrightarrow> byName m n \<noteq> Some x"
        using inj nn by blast
      then show ?thesis
        using ih True nn by (auto simp: b1 r1 split: option.splits)
    next
      case False
      then show ?thesis using ih by (auto simp: b1)
    qed
  next
    fix a
    have ex: "(\<exists>name \<in> set ns. byName m1 name = Some a) \<longleftrightarrow>
              (\<exists>name \<in> set ns. byName m name = Some a)"
      using d(2) by (auto simp: b1)
    have excl: "byName m n = Some a \<Longrightarrow> \<not> (\<exists>name \<in> set ns. byName m name = Some a)"
      using inj d(2) by blast
    show "refCount (nodes (walkFold remove_visit False ns m1) a) =
            (if \<exists>name \<in> set (n # ns). byName m name = Some a then refCount (nodes m a) - 1
             else refCount (nodes m a))"
      using ih ex excl by (auto simp: r1)
  qed
qed

section \<open>\<^verbatim>\<open>remove\<close> on a well-formed lock system\<close>

lemma idx_ok_in_heap:
  "idx_ok m \<Longrightarrow> a \<in> set (byExpiry m) \<Longrightarrow> 0 \<le> byExpiryIndex (nodes m a)"
  unfolding idx_ok_def by (auto simp: in_set_conv_nth)

lemma remove_ok:
  assumes wf: "wf_memLS m" and n: "n < nalloc m"
  shows "\<exists>m'. remove n m = Returns m' \<and> wf_memLS m' \<and> nalloc m' = nalloc m \<and> gen m' = gen m \<and>
           byToken m' = (byToken m)(token (nodes m n) := None) \<and>
           byName m' \<subseteq>\<^sub>m byName m \<and>
           set (byExpiry m') = set (byExpiry m) - {n} \<and>
           (\<forall>a. details (nodes m' a) = details (nodes m a) \<and>
                expiry (nodes m' a) = expiry (nodes m a) \<and>
                held (nodes m' a) = held (nodes m a) \<and>
                token (nodes m' a) = (if a = n then [] else token (nodes m a))) \<and>
           (\<forall>name. byName m' name =
              (if name \<in> set (walkNames (Root (details (nodes m n)))) then
                 (case byName m name of
                    None \<Rightarrow> None
                  | Some x \<Rightarrow> if refCount (nodes m x) = 1 then None else Some x)
               else byName m name)) \<and>
           (\<forall>a. refCount (nodes m' a) =
              (if \<exists>name \<in> set (walkNames (Root (details (nodes m n)))). byName m name = Some a
               then refCount (nodes m a) - 1 else refCount (nodes m a)))"
proof -
  define m2 where
    "m2 = setNode n (\<lambda>x. x\<lparr>token := []\<rparr>) (m\<lparr>byToken := (byToken m)(token (nodes m n) := None)\<rparr>)"
  define name where "name = Root (details (nodes m2 n))"
  define m3 where "m3 = walkFold remove_visit True (walkNames name) m2"
  have m2: "nalloc m2 = nalloc m" "gen m2 = gen m" "byName m2 = byName m"
    "byExpiry m2 = byExpiry m" "byToken m2 = (byToken m)(token (nodes m n) := None)"
    "\<And>a. details (nodes m2 a) = details (nodes m a)"
    "\<And>a. expiry (nodes m2 a) = expiry (nodes m a)"
    "\<And>a. held (nodes m2 a) = held (nodes m a)"
    "\<And>a. byExpiryIndex (nodes m2 a) = byExpiryIndex (nodes m a)"
    "\<And>a. token (nodes m2 a) = (if a = n then [] else token (nodes m a))"
    "\<And>a. refCount (nodes m2 a) = refCount (nodes m a)"
    by (simp_all add: m2_def setNode_def)
  have nm: "name = Root (details (nodes m n))" by (simp add: name_def m2)
  have rooted: "rooted name"
    using wf n by (simp add: name_def m2 wf_memLS_def)
  have walk: "walkToRoot name remove_visit m2 = Returns (True, m3)"
    unfolding walkToRoot_def m3_def by (rule walkLoop_all[OF _ rooted]) simp
  have fr: "rc_frame m2 m3" unfolding m3_def by (rule walkFold_remove_frame)
  note m3 = rc_frame_fields[OF fr]
  have ok: "idx_ok m" using wf by (simp add: wf_memLS_def)
  have ok2: "idx_ok m2" using ok by (simp add: idx_ok_def m2)
  have ok3: "idx_ok m3" by (rule rc_frame_idx_ok[OF fr ok2])
  have idx3: "byExpiryIndex (nodes m3 n) = byExpiryIndex (nodes m n)" by (simp add: m3 m2)
  have h3: "byExpiry m3 = byExpiry m" by (simp add: m3 m2)
  have unf: "remove n m =
      (if byExpiryIndex (nodes m3 n) \<ge> 0
       then heap_Remove (nat (byExpiryIndex (nodes m3 n))) m3 else Returns m3)"
    unfolding remove_def Let_def m2_def[symmetric] name_def[symmetric]
    by (simp add: walk obind_def)
  have "\<exists>m'. remove n m = Returns m' \<and> same_but_idx m3 m' \<and> idx_ok m' \<and>
          set (byExpiry m') = set (byExpiry m) - {n}"
  proof (cases "byExpiryIndex (nodes m3 n) \<ge> 0")
    case True
    from idx_ok_index[OF ok3 True]
    have il: "nat (byExpiryIndex (nodes m3 n)) < length (byExpiry m3)"
      and at: "byExpiry m3 ! nat (byExpiryIndex (nodes m3 n)) = n" by auto
    from heap_Remove_props[OF il] ok3 at h3 True show ?thesis
      unfolding unf by auto
  next
    case False
    then have "n \<notin> set (byExpiry m3)" using idx_ok_in_heap[OF ok3, of n] by auto
    then have "set (byExpiry m3) = set (byExpiry m) - {n}" using h3 by auto
    with False ok3 show ?thesis unfolding unf by auto
  qed
  then obtain m' where r: "remove n m = Returns m'" and s: "same_but_idx m3 m'"
    and ok': "idx_ok m'" and set': "set (byExpiry m') = set (byExpiry m) - {n}" by blast
  note m' = same_but_idx_fields[OF s]
  have fields: "nalloc m' = nalloc m" "gen m' = gen m"
    "byToken m' = (byToken m)(token (nodes m n) := None)"
    "\<And>a. details (nodes m' a) = details (nodes m a)"
    "\<And>a. expiry (nodes m' a) = expiry (nodes m a)"
    "\<And>a. held (nodes m' a) = held (nodes m a)"
    "\<And>a. token (nodes m' a) = (if a = n then [] else token (nodes m a))"
    by (simp_all add: m' m3 m2)
  have names: "byName m' \<subseteq>\<^sub>m byName m" using m3(5) by (simp add: m' m2)
  have nmle: "\<forall>name a. byName m' name = Some a \<longrightarrow> byName m name = Some a"
    using names by (auto simp: map_le_def dom_def)
  have w1: "\<forall>a \<in> set (byExpiry m'). a < nalloc m' \<and> \<not> held (nodes m' a) \<and>
              0 \<le> Duration (details (nodes m' a)) \<and> token (nodes m' a) \<noteq> []"
    using wf unfolding wf_memLS_def set' by (simp add: fields)
  have w2: "\<forall>a < nalloc m'. rooted (Root (details (nodes m' a)))"
    using wf unfolding wf_memLS_def by (simp add: fields)
  have w3: "\<forall>t a. byToken m' t = Some a \<longrightarrow> a < nalloc m' \<and> token (nodes m' a) = t \<and> t \<noteq> []"
  proof (intro allI impI)
    fix t a assume "byToken m' t = Some a"
    then have t: "t \<noteq> token (nodes m n)" and ta: "byToken m t = Some a"
      by (auto simp: fields split: if_splits)
    from wf ta have a: "a < nalloc m" "token (nodes m a) = t" "t \<noteq> []"
      unfolding wf_memLS_def by blast+
    with t have "a \<noteq> n" by auto
    with a show "a < nalloc m' \<and> token (nodes m' a) = t \<and> t \<noteq> []" by (simp add: fields)
  qed
  have w4: "\<forall>name a. byName m' name = Some a \<longrightarrow>
              a < nalloc m' \<and> Root (details (nodes m' a)) = name"
    using wf nmle unfolding wf_memLS_def fields by blast
  have w5: "\<forall>a. token (nodes m' a) \<noteq> [] \<longrightarrow> byToken m' (token (nodes m' a)) = Some a"
  proof (intro allI impI)
    fix a assume t: "token (nodes m' a) \<noteq> []"
    then have an: "a \<noteq> n" and ta: "token (nodes m a) \<noteq> []" by (auto simp: fields split: if_splits)
    from wf ta have reg: "byToken m (token (nodes m a)) = Some a"
      unfolding wf_memLS_def by blast
    have "token (nodes m a) \<noteq> token (nodes m n)"
    proof
      assume e: "token (nodes m a) = token (nodes m n)"
      then have "token (nodes m n) \<noteq> []" using ta by simp
      with wf have "byToken m (token (nodes m n)) = Some n" unfolding wf_memLS_def by blast
      with reg e an show False by simp
    qed
    with reg an show "byToken m' (token (nodes m' a)) = Some a" by (simp add: fields)
  qed
  have "wf_memLS m'" unfolding wf_memLS_def using ok' w1 w2 w3 w4 w5 by blast
  moreover have inj2: "\<forall>name a. byName m2 name = Some a \<longrightarrow> Root (details (nodes m2 a)) = name"
    using wf unfolding wf_memLS_def by (simp add: m2)
  note eff = walkFold_remove_effect[OF walkNames_distinct[OF rooted] inj2, of True,
      folded m3_def, unfolded m2 nm]
  have "(\<forall>name. byName m' name =
              (if name \<in> set (walkNames (Root (details (nodes m n)))) then
                 (case byName m name of
                    None \<Rightarrow> None
                  | Some x \<Rightarrow> if refCount (nodes m x) = 1 then None else Some x)
               else byName m name)) \<and>
           (\<forall>a. refCount (nodes m' a) =
              (if \<exists>name \<in> set (walkNames (Root (details (nodes m n)))). byName m name = Some a
               then refCount (nodes m a) - 1 else refCount (nodes m a)))"
    using eff by (simp add: m')
  ultimately show ?thesis using r fields names set' by blast
qed

section \<open>The expiry sweep\<close>

lemma wf_idx_ok: "wf_memLS m \<Longrightarrow> idx_ok m"
  by (simp add: wf_memLS_def)

lemma collectExpiredNodes_stop:
  "byExpiry m = [] \<or> now < expiry (nodes m (hd (byExpiry m))) \<Longrightarrow>
     collectExpiredNodes now m = Some (Returns m)"
  by (subst collectExpiredNodes.simps) (auto split: list.splits)

lemma collectExpiredNodes_step:
  "byExpiry m = a # rest \<Longrightarrow> \<not> now < expiry (nodes m a) \<Longrightarrow> remove a m = Returns m1 \<Longrightarrow>
     collectExpiredNodes now m = collectExpiredNodes now m1"
  by (subst collectExpiredNodes.simps) simp

lemma sweep_ok:
  "wf_memLS m \<Longrightarrow>
   \<exists>m'. collectExpiredNodes now m = Some (Returns m') \<and> wf_memLS m' \<and>
        nalloc m' = nalloc m \<and> gen m' = gen m \<and> byName m' \<subseteq>\<^sub>m byName m \<and>
        set (byExpiry m') \<subseteq> set (byExpiry m) \<and>
        (\<forall>t. byToken m' t =
               (if \<exists>a \<in> set (byExpiry m) - set (byExpiry m'). token (nodes m a) = t then None
                else byToken m t)) \<and>
        (\<forall>a. details (nodes m' a) = details (nodes m a) \<and>
             expiry (nodes m' a) = expiry (nodes m a) \<and>
             held (nodes m' a) = held (nodes m a) \<and>
             token (nodes m' a) =
               (if a \<in> set (byExpiry m) - set (byExpiry m') then [] else token (nodes m a))) \<and>
        (byExpiry m' = [] \<or> now < expiry (nodes m' (hd (byExpiry m')))) \<and>
        (\<forall>a \<in> set (byExpiry m) - set (byExpiry m'). expiry (nodes m a) \<le> now)"
proof (induction "length (byExpiry m)" arbitrary: m rule: less_induct)
  case less
  note wf = less.prems
  show ?case
  proof (cases "byExpiry m = [] \<or> now < expiry (nodes m (hd (byExpiry m)))")
    case True
    from collectExpiredNodes_stop[OF True] wf True show ?thesis by auto
  next
    case False
    then obtain a rest where h: "byExpiry m = a # rest" and ex: "\<not> now < expiry (nodes m a)"
      by (cases "byExpiry m") auto
    have ain: "a \<in> set (byExpiry m)" using h by simp
    then have an: "a < nalloc m" using wf by (simp add: wf_memLS_def)
    from remove_ok[OF wf an] obtain m1 where
      r: "remove a m = Returns m1" and wf1: "wf_memLS m1" and
      f1: "nalloc m1 = nalloc m" "gen m1 = gen m"
        "byToken m1 = (byToken m)(token (nodes m a) := None)"
        "byName m1 \<subseteq>\<^sub>m byName m" "set (byExpiry m1) = set (byExpiry m) - {a}" and
      n1: "\<forall>b. details (nodes m1 b) = details (nodes m b) \<and>
                expiry (nodes m1 b) = expiry (nodes m b) \<and>
                held (nodes m1 b) = held (nodes m b) \<and>
                token (nodes m1 b) = (if b = a then [] else token (nodes m b))"
      by blast
    have "card (set (byExpiry m1)) < card (set (byExpiry m))"
      unfolding f1(5) using ain by (intro card_Diff1_less) simp_all
    then have len: "length (byExpiry m1) < length (byExpiry m)"
      using idx_ok_distinct[OF wf_idx_ok[OF wf]] idx_ok_distinct[OF wf_idx_ok[OF wf1]]
      by (simp add: distinct_card)
    from less.hyps[OF len wf1] obtain m' where
      c: "collectExpiredNodes now m1 = Some (Returns m')" and wf': "wf_memLS m'" and
      f': "nalloc m' = nalloc m1" "gen m' = gen m1" "byName m' \<subseteq>\<^sub>m byName m1"
        "set (byExpiry m') \<subseteq> set (byExpiry m1)" and
      t': "\<forall>t. byToken m' t =
               (if \<exists>b \<in> set (byExpiry m1) - set (byExpiry m'). token (nodes m1 b) = t then None
                else byToken m1 t)" and
      n': "\<forall>b. details (nodes m' b) = details (nodes m1 b) \<and>
             expiry (nodes m' b) = expiry (nodes m1 b) \<and>
             held (nodes m' b) = held (nodes m1 b) \<and>
             token (nodes m' b) =
               (if b \<in> set (byExpiry m1) - set (byExpiry m') then [] else token (nodes m1 b))" and
      st: "byExpiry m' = [] \<or> now < expiry (nodes m' (hd (byExpiry m')))" and
      e': "\<forall>b \<in> set (byExpiry m1) - set (byExpiry m'). expiry (nodes m1 b) \<le> now"
      by blast
    have R: "set (byExpiry m) - set (byExpiry m') = insert a (set (byExpiry m1) - set (byExpiry m'))"
      using f1(5) f'(4) ain by auto
    have c0: "collectExpiredNodes now m = Some (Returns m')"
      using collectExpiredNodes_step[OF h ex r] c by simp
    have g1: "byName m' \<subseteq>\<^sub>m byName m" using f'(3) f1(4) by (rule map_le_trans)
    have g2: "set (byExpiry m') \<subseteq> set (byExpiry m)" using f'(4) f1(5) by auto
    have g3: "\<forall>t. byToken m' t =
               (if \<exists>b \<in> set (byExpiry m) - set (byExpiry m'). token (nodes m b) = t then None
                else byToken m t)"
    proof
      fix t
      have "(\<exists>b \<in> set (byExpiry m1) - set (byExpiry m'). token (nodes m1 b) = t) \<longleftrightarrow>
            (\<exists>b \<in> set (byExpiry m1) - set (byExpiry m'). token (nodes m b) = t)"
        using n1 f1(5) by auto
      then show "byToken m' t =
               (if \<exists>b \<in> set (byExpiry m) - set (byExpiry m'). token (nodes m b) = t then None
                else byToken m t)"
        unfolding R using t'[rule_format, of t] f1(3) by auto
    qed
    have g4: "\<forall>b. details (nodes m' b) = details (nodes m b) \<and>
             expiry (nodes m' b) = expiry (nodes m b) \<and>
             held (nodes m' b) = held (nodes m b) \<and>
             token (nodes m' b) =
               (if b \<in> set (byExpiry m) - set (byExpiry m') then [] else token (nodes m b))"
      unfolding R using n' n1 by auto
    have g5: "\<forall>b \<in> set (byExpiry m) - set (byExpiry m'). expiry (nodes m b) \<le> now"
      unfolding R using e' n1 ex by auto
    from c0 wf' f' f1 g1 g2 g3 g4 g5 st show ?thesis by auto
  qed
qed

section \<open>Refresh and Unlock\<close>

lemma setNode_fields [simp]:
  "nalloc (setNode a f m) = nalloc m" "gen (setNode a f m) = gen m"
  "byName (setNode a f m) = byName m" "byToken (setNode a f m) = byToken m"
  "byExpiry (setNode a f m) = byExpiry m"
  by (simp_all add: setNode_def)

lemma setNode_node: "nodes (setNode a f m) b = (if b = a then f (nodes m a) else nodes m b)"
  by (simp add: setNode_def)

lemma setNode_idx_ok:
  assumes "byExpiryIndex (f (nodes m a)) = byExpiryIndex (nodes m a)"
  shows "idx_ok (setNode a f m) = idx_ok m"
proof -
  have "\<And>b. byExpiryIndex (nodes (setNode a f m) b) = byExpiryIndex (nodes m b)"
    using assms by (simp add: setNode_node)
  then show ?thesis unfolding idx_ok_def by simp
qed

lemma setNode_wf:
  assumes wf: "wf_memLS m"
    and f: "byExpiryIndex (f (nodes m a)) = byExpiryIndex (nodes m a)"
      "token (f (nodes m a)) = token (nodes m a)"
      "Root (details (f (nodes m a))) = Root (details (nodes m a))"
    and q: "a \<in> set (byExpiry m) \<Longrightarrow>
              \<not> held (f (nodes m a)) \<and> 0 \<le> Duration (details (f (nodes m a)))"
  shows "wf_memLS (setNode a f m)"
proof -
  have tk: "\<And>b. token (nodes (setNode a f m) b) = token (nodes m b)"
    and rt: "\<And>b. Root (details (nodes (setNode a f m) b)) = Root (details (nodes m b))"
    using f by (simp_all add: setNode_node)
  have w1: "\<forall>b \<in> set (byExpiry (setNode a f m)).
      b < nalloc (setNode a f m) \<and> \<not> held (nodes (setNode a f m) b) \<and>
      0 \<le> Duration (details (nodes (setNode a f m) b)) \<and> token (nodes (setNode a f m) b) \<noteq> []"
  proof
    fix b assume b: "b \<in> set (byExpiry (setNode a f m))"
    then have bm: "b \<in> set (byExpiry m)" by simp
    with wf have o: "b < nalloc m" "\<not> held (nodes m b)" "0 \<le> Duration (details (nodes m b))"
      "token (nodes m b) \<noteq> []" unfolding wf_memLS_def by blast+
    show "b < nalloc (setNode a f m) \<and> \<not> held (nodes (setNode a f m) b) \<and>
      0 \<le> Duration (details (nodes (setNode a f m) b)) \<and> token (nodes (setNode a f m) b) \<noteq> []"
    proof (cases "b = a")
      case True
      with q bm o f show ?thesis by (simp add: setNode_node)
    next
      case False
      with o show ?thesis by (simp add: setNode_node)
    qed
  qed
  show ?thesis
    unfolding wf_memLS_def
    using wf w1 unfolding wf_memLS_def by (simp add: tk rt setNode_idx_ok[of f m a, OF f(1)])
qed

lemma wf_token_node:
  "wf_memLS m \<Longrightarrow> byToken m t = Some n \<Longrightarrow> n < nalloc m \<and> token (nodes m n) = t \<and> t \<noteq> []"
  unfolding wf_memLS_def by blast

lemma wf_held_not_queued: "wf_memLS m \<Longrightarrow> held (nodes m n) \<Longrightarrow> n \<notin> set (byExpiry m)"
  unfolding wf_memLS_def by blast

text \<open>Taking a node out of the queue if it is there, as \<^verbatim>\<open>Refresh\<close> and \<^verbatim>\<open>hold\<close> do.\<close>

lemma dequeue_ok:
  assumes wf: "wf_memLS m"
  shows "\<exists>m1. (if byExpiryIndex (nodes m n) \<ge> 0
               then heap_Remove (nat (byExpiryIndex (nodes m n))) m else Returns m) = Returns m1 \<and>
           wf_memLS m1 \<and> same_but_idx m m1 \<and> set (byExpiry m1) = set (byExpiry m) - {n}"
proof (cases "byExpiryIndex (nodes m n) \<ge> 0")
  case True
  have ok: "idx_ok m" by (rule wf_idx_ok[OF wf])
  from idx_ok_index[OF ok True]
  have il: "nat (byExpiryIndex (nodes m n)) < length (byExpiry m)"
    and at: "byExpiry m ! nat (byExpiryIndex (nodes m n)) = n" by auto
  from heap_Remove_props[OF il] ok at obtain m1 where
    m1: "heap_Remove (nat (byExpiryIndex (nodes m n))) m = Returns m1" "same_but_idx m m1"
      "idx_ok m1" "set (byExpiry m1) = set (byExpiry m) - {n}" by auto
  have "wf_memLS m1" by (rule same_but_idx_wf[OF wf m1(2,3)]) (simp add: m1(4))
  with m1 True show ?thesis by simp
next
  case False
  then have "n \<notin> set (byExpiry m)" using idx_ok_in_heap[OF wf_idx_ok[OF wf], of n] by auto
  with False wf show ?thesis by simp
qed

text \<open>Putting a node that is not queued into the queue.\<close>

lemma enqueue_ok:
  assumes wf: "wf_memLS m" and n: "n \<notin> set (byExpiry m)" "n < nalloc m"
    "\<not> held (nodes m n)" "0 \<le> Duration (details (nodes m n))" "token (nodes m n) \<noteq> []"
  shows "wf_memLS (heap_Push n m) \<and> same_but_idx m (heap_Push n m) \<and>
         set (byExpiry (heap_Push n m)) = insert n (set (byExpiry m))"
proof -
  note p = heap_Push_props[OF n(1)]
  note f = same_but_idx_fields[OF p(1)]
  have "wf_memLS (heap_Push n m)"
    using wf n p(4)[OF wf_idx_ok[OF wf]]
    unfolding wf_memLS_def by (simp add: f p(2))
  with p show ?thesis by simp
qed

lemma Refresh_ok:
  assumes wf: "wf_memLS m1" and t: "byToken m1 tok = Some n" and nh: "\<not> held (nodes m1 n)"
  shows "\<exists>m2. obind (if byExpiryIndex (nodes m1 n) \<ge> 0
                 then heap_Remove (nat (byExpiryIndex (nodes m1 n))) m1
                 else Returns m1) (\<lambda>ma.
            let mb = setNode n (\<lambda>x. x\<lparr>details := (details x)\<lparr>Duration := d\<rparr>\<rparr>) ma;
                mc = (if Duration (details (nodes mb n)) \<ge> 0 then
                        heap_Push n
                          (setNode n (\<lambda>x. x\<lparr>expiry := Add now (Duration (details x))\<rparr>) mb)
                      else mb)
            in Returns (Inr (details (nodes mc n)), mc))
          = Returns (Inr ((details (nodes m1 n))\<lparr>Duration := d\<rparr>), m2) \<and>
          wf_memLS m2 \<and> details (nodes m2 n) = (details (nodes m1 n))\<lparr>Duration := d\<rparr> \<and>
          byToken m2 = byToken m1 \<and> byName m2 = byName m1 \<and>
          held (nodes m2 n) = held (nodes m1 n) \<and> token (nodes m2 n) = token (nodes m1 n) \<and>
          (if 0 \<le> d then n \<in> set (byExpiry m2) \<and> expiry (nodes m2 n) = Add now d
           else n \<notin> set (byExpiry m2)) \<and>
          set (byExpiry m2) - {n} = set (byExpiry m1) - {n} \<and>
          (\<forall>a. a \<noteq> n \<longrightarrow> erase_idx (nodes m2 a) = erase_idx (nodes m1 a))"
proof -
  from dequeue_ok[OF wf, of n] obtain ma where
    ma: "(if byExpiryIndex (nodes m1 n) \<ge> 0
          then heap_Remove (nat (byExpiryIndex (nodes m1 n))) m1 else Returns m1) = Returns ma"
      "wf_memLS ma" "same_but_idx m1 ma" "set (byExpiry ma) = set (byExpiry m1) - {n}"
    by blast
  note fa = same_but_idx_fields[OF ma(3)]
  from wf_token_node[OF wf t] have n: "n < nalloc m1" "token (nodes m1 n) = tok" "tok \<noteq> []"
    by auto
  define mb where "mb = setNode n (\<lambda>x. x\<lparr>details := (details x)\<lparr>Duration := d\<rparr>\<rparr>) ma"
  have nq: "n \<notin> set (byExpiry ma)" using ma(4) by simp
  have wfb: "wf_memLS mb"
    unfolding mb_def by (rule setNode_wf[OF ma(2)]) (use nq in simp_all)
  have b: "nalloc mb = nalloc m1" "byToken mb = byToken m1" "byName mb = byName m1"
    "byExpiry mb = byExpiry ma"
    "details (nodes mb n) = (details (nodes m1 n))\<lparr>Duration := d\<rparr>"
    "held (nodes mb n) = held (nodes m1 n)" "token (nodes mb n) = token (nodes m1 n)"
    by (simp_all add: mb_def fa setNode_node)
  have eb: "\<And>a. a \<noteq> n \<Longrightarrow> erase_idx (nodes mb a) = erase_idx (nodes m1 a)"
    using ma(3) by (simp add: mb_def same_but_idx_def setNode_node)
  have unf: "obind (if byExpiryIndex (nodes m1 n) \<ge> 0
                 then heap_Remove (nat (byExpiryIndex (nodes m1 n))) m1
                 else Returns m1) (\<lambda>ma.
            let mb = setNode n (\<lambda>x. x\<lparr>details := (details x)\<lparr>Duration := d\<rparr>\<rparr>) ma;
                mc = (if Duration (details (nodes mb n)) \<ge> 0 then
                        heap_Push n
                          (setNode n (\<lambda>x. x\<lparr>expiry := Add now (Duration (details x))\<rparr>) mb)
                      else mb)
            in Returns (Inr (details (nodes mc n)), mc))
      = (if 0 \<le> d
         then Returns (Inr (details (nodes (heap_Push n
                  (setNode n (\<lambda>x. x\<lparr>expiry := Add now (Duration (details x))\<rparr>) mb)) n)),
                heap_Push n (setNode n (\<lambda>x. x\<lparr>expiry := Add now (Duration (details x))\<rparr>) mb))
         else Returns (Inr (details (nodes mb n)), mb))"
    by (simp add: ma(1) obind_def Let_def mb_def setNode_node)
  show ?thesis
  proof (cases "0 \<le> d")
    case False
    have "n \<notin> set (byExpiry mb)" "set (byExpiry mb) - {n} = set (byExpiry m1) - {n}"
      using ma(4) by (simp_all add: b)
    with False wfb b eb show ?thesis unfolding unf by simp
  next
    case True
    define mc where "mc = setNode n (\<lambda>x. x\<lparr>expiry := Add now (Duration (details x))\<rparr>) mb"
    have wfc: "wf_memLS mc"
      unfolding mc_def by (rule setNode_wf[OF wfb]) (use nq b in simp_all)
    have c: "n \<notin> set (byExpiry mc)" "n < nalloc mc" "\<not> held (nodes mc n)"
      "0 \<le> Duration (details (nodes mc n))" "token (nodes mc n) \<noteq> []"
      using nq n nh True by (simp_all add: mc_def b setNode_node)
    from enqueue_ok[OF wfc c] have
      p: "wf_memLS (heap_Push n mc)" "same_but_idx mc (heap_Push n mc)"
        "set (byExpiry (heap_Push n mc)) = insert n (set (byExpiry mc))" by auto
    note fp = same_but_idx_fields[OF p(2)]
    have ep: "\<And>a. a \<noteq> n \<Longrightarrow> erase_idx (nodes (heap_Push n mc) a) = erase_idx (nodes m1 a)"
      using p(2) eb unfolding same_but_idx_def by (simp add: mc_def setNode_node)
    have q: "details (nodes (heap_Push n mc) n) = (details (nodes m1 n))\<lparr>Duration := d\<rparr>"
      "byToken (heap_Push n mc) = byToken m1" "byName (heap_Push n mc) = byName m1"
      "held (nodes (heap_Push n mc) n) = held (nodes m1 n)"
      "token (nodes (heap_Push n mc) n) = token (nodes m1 n)"
      "expiry (nodes (heap_Push n mc) n) = Add now d"
      unfolding fp by (simp_all add: mc_def b setNode_node)
    have q2: "n \<in> set (byExpiry (heap_Push n mc))"
      "set (byExpiry (heap_Push n mc)) - {n} = set (byExpiry m1) - {n}"
      unfolding p(3) using ma(4) by (auto simp: mc_def b)
    from True p(1) ep q q2 show ?thesis
      unfolding unf mc_def[symmetric] by simp
  qed
qed

section \<open>The example lock systems are well formed\<close>

lemma wf_NewMemLS: "wf_memLS (NewMemLS u)"
  by (simp add: wf_memLS_def idx_ok_def NewMemLS_def newNode_def)

lemma wf_exA: "wf_memLS exA"
  unfolding wf_memLS_def idx_ok_def
  by (simp add: exA_def dA_def newNode_def rooted_def less_Suc_eq numeral_2_eq_2)

lemma exA_sweep: "collectExpiredNodes now exA = Some (Returns exA)"
  by (rule collectExpiredNodes_stop) (simp add: exA_def)

lemma wf_exB: "wf_memLS exB"
  unfolding wf_memLS_def idx_ok_def
  by (simp add: exB_def dB_def newNode_def rooted_def less_Suc_eq numeral_2_eq_2)

lemma exB_sweep: "now < 10 \<Longrightarrow> collectExpiredNodes now exB = Some (Returns exB)"
  by (rule collectExpiredNodes_stop) (simp add: exB_def)

section \<open>Confirm: lookup, hold and release\<close>

lemma HasPrefix_prefix: "HasPrefix s pre \<longleftrightarrow> prefix pre s"
  by (auto simp: HasPrefix_iff prefix_def)

lemma lookup_resolve: "lookup name conditions m = resolve name conditions m"
proof (induction conditions)
  case Nil
  show ?case by (simp add: resolve_def)
next
  case (Cons c cs)
  show ?case
  proof (cases "matching m name c")
    case True
    then show ?thesis
      by (auto simp: resolve_def matching_def covers_def HasPrefix_prefix split: option.splits)
  next
    case False
    then have "lookup name (c # cs) m = lookup name cs m"
      by (auto simp: matching_def covers_def HasPrefix_prefix split: option.splits)
    with False Cons.IH show ?thesis by (simp add: resolve_def)
  qed
qed

lemma lookup_Some:
  "lookup name conditions m = Some n \<Longrightarrow>
     \<not> held (nodes m n) \<and> covers (details (nodes m n)) name \<and>
     (\<exists>c \<in> set conditions. byToken m (Token c) = Some n)"
  unfolding lookup_resolve resolve_def
  by (auto simp: find_Some_iff matching_def split: option.splits)

lemma lookup_Some_token:
  "lookup name conditions m = Some n \<Longrightarrow> \<not> held (nodes m n) \<and> (\<exists>t. byToken m t = Some n)"
  by (induction conditions) (auto split: option.splits if_splits)

lemma lookup_Tokens:
  "map Token cs' = map Token cs \<Longrightarrow> lookup name cs' m = lookup name cs m"
proof (induction cs arbitrary: cs')
  case Nil
  then show ?case by simp
next
  case (Cons c cs)
  then obtain c' cs0 where cs': "cs' = c' # cs0" "Token c' = Token c" "map Token cs0 = map Token cs"
    by (cases cs') auto
  with Cons.IH[OF cs'(3)] show ?case by (simp split: option.splits)
qed

text \<open>Lock systems that agree on what \<^verbatim>\<open>lookup\<close> reads.\<close>

lemma lookup_cong:
  assumes "byToken m' = byToken m"
    and "\<And>a. held (nodes m' a) = held (nodes m a)"
    and "\<And>a. details (nodes m' a) = details (nodes m a)"
  shows "lookup name cs m' = lookup name cs m"
  by (induction cs) (simp_all add: assms split: option.splits)

lemma hold_ok:
  assumes wf: "wf_memLS m" and nh: "\<not> held (nodes m n)"
  shows "\<exists>m'. hold n m = Returns m' \<and>
           nalloc m' = nalloc m \<and> gen m' = gen m \<and> byToken m' = byToken m \<and>
           byName m' = byName m \<and> set (byExpiry m') = set (byExpiry m) - {n} \<and>
           (\<forall>a. erase_idx (nodes m' a) =
                 (if a = n then (erase_idx (nodes m a))\<lparr>held := True\<rparr> else erase_idx (nodes m a))) \<and>
           wf_memLS m'"
proof -
  define m1 where "m1 = setNode n (\<lambda>x. x\<lparr>held := True\<rparr>) m"
  have ok: "idx_ok m" by (rule wf_idx_ok[OF wf])
  have ok1: "idx_ok m1" unfolding m1_def using ok by (simp add: setNode_idx_ok)
  have f1: "nalloc m1 = nalloc m" "gen m1 = gen m" "byToken m1 = byToken m" "byName m1 = byName m"
    "byExpiry m1 = byExpiry m"
    "\<And>a. byExpiryIndex (nodes m1 a) = byExpiryIndex (nodes m a)"
    "\<And>a. erase_idx (nodes m1 a) =
         (if a = n then (erase_idx (nodes m a))\<lparr>held := True\<rparr> else erase_idx (nodes m a))"
    by (simp_all add: m1_def setNode_node erase_idx_def)
  have unf: "hold n m =
      (if Duration (details (nodes m1 n)) \<ge> 0 \<and> byExpiryIndex (nodes m1 n) \<ge> 0
       then heap_Remove (nat (byExpiryIndex (nodes m1 n))) m1 else Returns m1)"
    using nh by (simp add: hold_def Let_def m1_def)
  have "\<exists>m'. hold n m = Returns m' \<and> same_but_idx m1 m' \<and> idx_ok m' \<and>
          set (byExpiry m') = set (byExpiry m) - {n}"
  proof (cases "n \<in> set (byExpiry m)")
    case True
    with wf have d: "0 \<le> Duration (details (nodes m n))" unfolding wf_memLS_def by blast
    from idx_ok_in_heap[OF ok True] have i: "0 \<le> byExpiryIndex (nodes m1 n)" by (simp add: f1)
    from idx_ok_index[OF ok1 i]
    have il: "nat (byExpiryIndex (nodes m1 n)) < length (byExpiry m1)"
      and at: "byExpiry m1 ! nat (byExpiryIndex (nodes m1 n)) = n" by auto
    have c: "Duration (details (nodes m1 n)) \<ge> 0 \<and> byExpiryIndex (nodes m1 n) \<ge> 0"
      using d i by (simp add: m1_def setNode_node)
    from heap_Remove_props[OF il] ok1 at c show ?thesis
      unfolding unf by (auto simp: f1)
  next
    case False
    with ok have "byExpiryIndex (nodes m1 n) = - 1" by (simp add: f1 idx_ok_def)
    with False ok1 show ?thesis unfolding unf by (simp add: f1)
  qed
  then obtain m' where r: "hold n m = Returns m'" and s: "same_but_idx m1 m'"
    and ok': "idx_ok m'" and set': "set (byExpiry m') = set (byExpiry m) - {n}" by blast
  note f' = same_but_idx_fields[OF s]
  have e': "\<And>a. erase_idx (nodes m' a) =
         (if a = n then (erase_idx (nodes m a))\<lparr>held := True\<rparr> else erase_idx (nodes m a))"
    using s f1(7) by (simp add: same_but_idx_def)
  have nf: "\<And>a. token (nodes m' a) = token (nodes m a)"
    "\<And>a. details (nodes m' a) = details (nodes m a)"
    "\<And>a. a \<noteq> n \<Longrightarrow> held (nodes m' a) = held (nodes m a)"
    by (simp_all add: f' m1_def setNode_node)
  have w1: "\<forall>a \<in> set (byExpiry m'). a < nalloc m' \<and> \<not> held (nodes m' a) \<and>
              0 \<le> Duration (details (nodes m' a)) \<and> token (nodes m' a) \<noteq> []"
  proof
    fix a assume "a \<in> set (byExpiry m')"
    then have a: "a \<in> set (byExpiry m)" "a \<noteq> n" by (simp_all add: set')
    with wf have "a < nalloc m \<and> \<not> held (nodes m a) \<and>
              0 \<le> Duration (details (nodes m a)) \<and> token (nodes m a) \<noteq> []"
      unfolding wf_memLS_def by blast
    with a(2) show "a < nalloc m' \<and> \<not> held (nodes m' a) \<and>
              0 \<le> Duration (details (nodes m' a)) \<and> token (nodes m' a) \<noteq> []"
      by (simp add: nf f'(1) f1)
  qed
  have "wf_memLS m'"
    using wf ok' w1 unfolding wf_memLS_def by (simp add: nf(1,2) f'(1-4) f1(1-5))
  with r f' f1 set' e' show ?thesis by simp
qed

lemma unhold_ok:
  assumes wf: "wf_memLS m" and h: "held (nodes m n)" and n: "n < nalloc m"
    and t: "token (nodes m n) \<noteq> []"
  shows "\<exists>m'. unhold n m = Returns m' \<and>
           nalloc m' = nalloc m \<and> gen m' = gen m \<and> byToken m' = byToken m \<and>
           byName m' = byName m \<and>
           set (byExpiry m') =
             (if 0 \<le> Duration (details (nodes m n)) then insert n (set (byExpiry m))
              else set (byExpiry m)) \<and>
           (\<forall>a. erase_idx (nodes m' a) =
                 (if a = n then (erase_idx (nodes m a))\<lparr>held := False\<rparr> else erase_idx (nodes m a))) \<and>
           wf_memLS m'"
proof -
  define m1 where "m1 = setNode n (\<lambda>x. x\<lparr>held := False\<rparr>) m"
  have nq: "n \<notin> set (byExpiry m)" by (rule wf_held_not_queued[OF wf h])
  have wf1: "wf_memLS m1"
    unfolding m1_def by (rule setNode_wf[OF wf]) (use nq in simp_all)
  have f1: "nalloc m1 = nalloc m" "gen m1 = gen m" "byToken m1 = byToken m" "byName m1 = byName m"
    "byExpiry m1 = byExpiry m"
    "\<And>a. erase_idx (nodes m1 a) =
         (if a = n then (erase_idx (nodes m a))\<lparr>held := False\<rparr> else erase_idx (nodes m a))"
    "details (nodes m1 n) = details (nodes m n)" "token (nodes m1 n) = token (nodes m n)"
    "\<not> held (nodes m1 n)"
    by (simp_all add: m1_def setNode_node erase_idx_def)
  have unf: "unhold n m =
      (if Duration (details (nodes m n)) \<ge> 0 then Returns (heap_Push n m1) else Returns m1)"
    using h by (simp add: unhold_def Let_def m1_def setNode_node)
  show ?thesis
  proof (cases "0 \<le> Duration (details (nodes m n))")
    case False
    with wf1 f1 show ?thesis unfolding unf by simp
  next
    case True
    have c: "n \<notin> set (byExpiry m1)" "n < nalloc m1" "\<not> held (nodes m1 n)"
      "0 \<le> Duration (details (nodes m1 n))" "token (nodes m1 n) \<noteq> []"
      using nq n t True by (simp_all add: f1)
    from enqueue_ok[OF wf1 c] have
      p: "wf_memLS (heap_Push n m1)" "same_but_idx m1 (heap_Push n m1)"
        "set (byExpiry (heap_Push n m1)) = insert n (set (byExpiry m1))" by auto
    note fp = same_but_idx_fields[OF p(2)]
    have e: "\<And>a. erase_idx (nodes (heap_Push n m1) a) =
         (if a = n then (erase_idx (nodes m a))\<lparr>held := False\<rparr> else erase_idx (nodes m a))"
      using p(2) f1(6) by (simp add: same_but_idx_def)
    from True p(1,3) e show ?thesis unfolding unf by (simp add: fp f1)
  qed
qed

lemma hold_opt_ok:
  assumes wf: "wf_memLS m" and nh: "\<And>n. r = Some n \<Longrightarrow> \<not> held (nodes m n)"
  shows "\<exists>m'. (case r of None \<Rightarrow> Returns m | Some a \<Rightarrow> hold a m) = Returns m' \<and>
           nalloc m' = nalloc m \<and> gen m' = gen m \<and> byToken m' = byToken m \<and>
           byName m' = byName m \<and> set (byExpiry m') = set (byExpiry m) - set_option r \<and>
           (\<forall>a. erase_idx (nodes m' a) =
                 (if a \<in> set_option r then (erase_idx (nodes m a))\<lparr>held := True\<rparr>
                  else erase_idx (nodes m a))) \<and>
           wf_memLS m'"
proof (cases r)
  case None
  with wf show ?thesis by simp
next
  case (Some n)
  from hold_ok[OF wf nh[OF Some]] Some show ?thesis by simp
qed

lemma unhold_opt_ok:
  assumes wf: "wf_memLS m"
    and h: "\<And>n. r = Some n \<Longrightarrow> held (nodes m n) \<and> n < nalloc m \<and> token (nodes m n) \<noteq> []"
  shows "\<exists>m'. (case r of None \<Rightarrow> Returns m | Some a \<Rightarrow> unhold a m) = Returns m' \<and>
           nalloc m' = nalloc m \<and> gen m' = gen m \<and> byToken m' = byToken m \<and>
           byName m' = byName m \<and>
           set (byExpiry m') =
             set (byExpiry m) \<union> {n \<in> set_option r. 0 \<le> Duration (details (nodes m n))} \<and>
           (\<forall>a. erase_idx (nodes m' a) =
                 (if a \<in> set_option r then (erase_idx (nodes m a))\<lparr>held := False\<rparr>
                  else erase_idx (nodes m a))) \<and>
           wf_memLS m'"
proof (cases r)
  case None
  with wf show ?thesis by simp
next
  case (Some n)
  from h[OF Some] have hh: "held (nodes m n)" "n < nalloc m" "token (nodes m n) \<noteq> []" by auto
  from unhold_ok[OF wf hh] Some show ?thesis by auto
qed

lemma erase_idx_held: "held (erase_idx x) = held x"
  by (simp add: erase_idx_def)

lemma erase_idx_eq_fields:
  assumes "erase_idx x = y"
  shows "details x = details y" "token x = token y" "held x = held y" "expiry x = expiry y"
proof -
  from assms have "details (erase_idx x) = details y" "token (erase_idx x) = token y"
    "held (erase_idx x) = held y" "expiry (erase_idx x) = expiry y" by simp_all
  then show "details x = details y" "token x = token y" "held x = held y" "expiry x = expiry y"
    by (simp_all add: erase_idx_def)
qed

text \<open>The two holds of \<^verbatim>\<open>Confirm\<close>, on the swept lock system.\<close>

lemma holds_ok:
  assumes wf: "wf_memLS m"
    and h0: "\<And>n. r0 = Some n \<Longrightarrow> \<not> held (nodes m n)"
    and h1: "\<And>n. r1 = Some n \<Longrightarrow> \<not> held (nodes m n)"
    and ne: "r1 = None \<or> r1 \<noteq> r0"
  shows "\<exists>m2. obind (case r0 of None \<Rightarrow> Returns m | Some a \<Rightarrow> hold a m) (\<lambda>ma.
                obind (case r1 of None \<Rightarrow> Returns ma | Some a \<Rightarrow> hold a ma) (\<lambda>mb.
                  Returns (Inr (r0, r1), mb))) = Returns (Inr (r0, r1) :: error + releaseHandle, m2) \<and>
           nalloc m2 = nalloc m \<and> gen m2 = gen m \<and> byToken m2 = byToken m \<and>
           byName m2 = byName m \<and>
           set (byExpiry m2) = set (byExpiry m) - (set_option r0 \<union> set_option r1) \<and>
           (\<forall>a. erase_idx (nodes m2 a) =
                 (if a \<in> set_option r0 \<union> set_option r1
                  then (erase_idx (nodes m a))\<lparr>held := True\<rparr> else erase_idx (nodes m a))) \<and>
           wf_memLS m2"
proof -
  from hold_opt_ok[OF wf h0] obtain ma where
    a: "(case r0 of None \<Rightarrow> Returns m | Some a \<Rightarrow> hold a m) = Returns ma"
      "nalloc ma = nalloc m" "gen ma = gen m" "byToken ma = byToken m" "byName ma = byName m"
      "set (byExpiry ma) = set (byExpiry m) - set_option r0"
      "\<forall>a. erase_idx (nodes ma a) =
                 (if a \<in> set_option r0 then (erase_idx (nodes m a))\<lparr>held := True\<rparr>
                  else erase_idx (nodes m a))"
      "wf_memLS ma" by blast
  have h1a: "\<not> held (nodes ma n)" if "r1 = Some n" for n
  proof -
    from that ne have "n \<notin> set_option r0" by (cases r0) auto
    with a(7) have "erase_idx (nodes ma n) = erase_idx (nodes m n)" by simp
    from erase_idx_fields(5)[OF this] h1[OF that] show ?thesis by simp
  qed
  from hold_opt_ok[OF a(8) h1a] obtain mb where
    b: "(case r1 of None \<Rightarrow> Returns ma | Some a \<Rightarrow> hold a ma) = Returns mb"
      "nalloc mb = nalloc ma" "gen mb = gen ma" "byToken mb = byToken ma" "byName mb = byName ma"
      "set (byExpiry mb) = set (byExpiry ma) - set_option r1"
      "\<forall>a. erase_idx (nodes mb a) =
                 (if a \<in> set_option r1 then (erase_idx (nodes ma a))\<lparr>held := True\<rparr>
                  else erase_idx (nodes ma a))"
      "wf_memLS mb" by blast
  have e: "\<forall>x. erase_idx (nodes mb x) =
                 (if x \<in> set_option r0 \<union> set_option r1
                  then (erase_idx (nodes m x))\<lparr>held := True\<rparr> else erase_idx (nodes m x))"
    using a(7) b(7) by auto
  have s: "set (byExpiry mb) = set (byExpiry m) - (set_option r0 \<union> set_option r1)"
    using a(6) b(6) by auto
  have "obind (case r0 of None \<Rightarrow> Returns m | Some a \<Rightarrow> hold a m) (\<lambda>ma.
                obind (case r1 of None \<Rightarrow> Returns ma | Some a \<Rightarrow> hold a ma) (\<lambda>mb.
                  Returns (Inr (r0, r1), mb))) = Returns (Inr (r0, r1) :: error + releaseHandle, mb)"
    by (simp add: a(1) b(1) obind_def)
  moreover have "nalloc mb = nalloc m" "gen mb = gen m" "byToken mb = byToken m"
    "byName mb = byName m" using a(2-5) b(2-5) by simp_all
  ultimately show ?thesis using b(8) e s by blast
qed

lemma releases_ok:
  assumes wf: "wf_memLS m"
    and h: "\<And>n. n \<in> set_option r0 \<union> set_option r1 \<Longrightarrow>
               held (nodes m n) \<and> n < nalloc m \<and> token (nodes m n) \<noteq> []"
    and ne: "r1 = None \<or> r1 \<noteq> r0"
  shows "\<exists>m4. release (r0, r1) m = Returns m4 \<and>
           nalloc m4 = nalloc m \<and> gen m4 = gen m \<and> byToken m4 = byToken m \<and>
           byName m4 = byName m \<and>
           set (byExpiry m4) =
             set (byExpiry m) \<union>
               {n \<in> set_option r0 \<union> set_option r1. 0 \<le> Duration (details (nodes m n))} \<and>
           (\<forall>a. erase_idx (nodes m4 a) =
                 (if a \<in> set_option r0 \<union> set_option r1
                  then (erase_idx (nodes m a))\<lparr>held := False\<rparr> else erase_idx (nodes m a))) \<and>
           wf_memLS m4"
proof -
  have h1: "held (nodes m n) \<and> n < nalloc m \<and> token (nodes m n) \<noteq> []" if "r1 = Some n" for n
    using h[of n] that by simp
  from unhold_opt_ok[OF wf h1] obtain ma where
    a: "(case r1 of None \<Rightarrow> Returns m | Some a \<Rightarrow> unhold a m) = Returns ma"
      "nalloc ma = nalloc m" "gen ma = gen m" "byToken ma = byToken m" "byName ma = byName m"
      "set (byExpiry ma) =
         set (byExpiry m) \<union> {n \<in> set_option r1. 0 \<le> Duration (details (nodes m n))}"
      "\<forall>a. erase_idx (nodes ma a) =
                 (if a \<in> set_option r1 then (erase_idx (nodes m a))\<lparr>held := False\<rparr>
                  else erase_idx (nodes m a))"
      "wf_memLS ma" by blast
  have same: "erase_idx (nodes ma n) = erase_idx (nodes m n)" if "r0 = Some n" for n
  proof -
    from that ne have "n \<notin> set_option r1" by (cases r1) auto
    with a(7) show ?thesis by simp
  qed
  have h0: "held (nodes ma n) \<and> n < nalloc ma \<and> token (nodes ma n) \<noteq> []" if "r0 = Some n" for n
    using h[of n] that erase_idx_fields(2,5)[OF same[OF that]] by (simp add: a(2))
  from unhold_opt_ok[OF a(8) h0] obtain mb where
    b: "(case r0 of None \<Rightarrow> Returns ma | Some a \<Rightarrow> unhold a ma) = Returns mb"
      "nalloc mb = nalloc ma" "gen mb = gen ma" "byToken mb = byToken ma" "byName mb = byName ma"
      "set (byExpiry mb) =
         set (byExpiry ma) \<union> {n \<in> set_option r0. 0 \<le> Duration (details (nodes ma n))}"
      "\<forall>a. erase_idx (nodes mb a) =
                 (if a \<in> set_option r0 then (erase_idx (nodes ma a))\<lparr>held := False\<rparr>
                  else erase_idx (nodes ma a))"
      "wf_memLS mb" by blast
  have d0: "Duration (details (nodes ma n)) = Duration (details (nodes m n))" if "r0 = Some n" for n
    using erase_idx_fields(1)[OF same[OF that]] by simp
  have e: "\<forall>x. erase_idx (nodes mb x) =
                 (if x \<in> set_option r0 \<union> set_option r1
                  then (erase_idx (nodes m x))\<lparr>held := False\<rparr> else erase_idx (nodes m x))"
    using a(7) b(7) by auto
  have s: "set (byExpiry mb) =
             set (byExpiry m) \<union>
               {n \<in> set_option r0 \<union> set_option r1. 0 \<le> Duration (details (nodes m n))}"
    unfolding b(6) a(6) using d0 by (cases r0) auto
  have "release (r0, r1) m = Returns mb"
    by (simp add: release_def a(1) b(1) obind_def)
  moreover have "nalloc mb = nalloc m" "gen mb = gen m" "byToken mb = byToken m"
    "byName mb = byName m" using a(2-5) b(2-5) by simp_all
  ultimately show ?thesis using b(8) e s by blast
qed

lemma Confirm_ok:
  fixes name0 name1 :: string and conds :: "Condition list" and m m1 :: memLS and now :: time
  assumes wf1: "wf_memLS m1" and c: "collectExpiredNodes now m = Some (Returns m1)"
  defines "r0 \<equiv> (if name0 \<noteq> [] then lookup (slashClean name0) conds m1 else None)"
    and "r1 \<equiv> (if name1 \<noteq> [] then lookup (slashClean name1) conds m1 else None)"
  shows "if (name0 \<noteq> [] \<and> r0 = None) \<or> (name1 \<noteq> [] \<and> r1 = None)
         then Confirm now name0 name1 conds m = Some (Returns (Inl ErrConfirmationFailed, m1))
         else \<exists>m2. Confirm now name0 name1 conds m
                     = Some (Returns (Inr (r0, if r1 = r0 then None else r1), m2)) \<and>
                nalloc m2 = nalloc m1 \<and> gen m2 = gen m1 \<and> byToken m2 = byToken m1 \<and>
                byName m2 = byName m1 \<and>
                set (byExpiry m2) = set (byExpiry m1) - (set_option r0 \<union> set_option r1) \<and>
                (\<forall>a. erase_idx (nodes m2 a) =
                      (if a \<in> set_option r0 \<union> set_option r1
                       then (erase_idx (nodes m1 a))\<lparr>held := True\<rparr>
                       else erase_idx (nodes m1 a))) \<and>
                wf_memLS m2"
proof -
  define r1' where "r1' = (if r1 = r0 then None else r1)"
  have unf: "Confirm now name0 name1 conds m =
      (if name0 \<noteq> [] \<and> r0 = None then Some (Returns (Inl ErrConfirmationFailed, m1))
       else if name1 \<noteq> [] \<and> r1 = None then Some (Returns (Inl ErrConfirmationFailed, m1))
       else Some (obind (case r0 of None \<Rightarrow> Returns m1 | Some a \<Rightarrow> hold a m1) (\<lambda>ma.
                obind (case r1' of None \<Rightarrow> Returns ma | Some a \<Rightarrow> hold a ma) (\<lambda>mb.
                  Returns (Inr (r0, r1'), mb)))))"
    unfolding Confirm_def rbind_def c Let_def r0_def r1_def r1'_def by simp
  show ?thesis
  proof (cases "(name0 \<noteq> [] \<and> r0 = None) \<or> (name1 \<noteq> [] \<and> r1 = None)")
    case True
    then show ?thesis unfolding unf by auto
  next
    case False
    have h0: "\<not> held (nodes m1 n)" if "r0 = Some n" for n
      using that lookup_Some[of "slashClean name0" conds m1 n]
      by (auto simp: r0_def split: if_splits)
    have h1: "\<not> held (nodes m1 n)" if "r1' = Some n" for n
      using that lookup_Some[of "slashClean name1" conds m1 n]
      by (auto simp: r1_def r1'_def split: if_splits)
    have ne: "r1' = None \<or> r1' \<noteq> r0" by (auto simp: r1'_def)
    have su: "set_option r0 \<union> set_option r1' = set_option r0 \<union> set_option r1"
      by (auto simp: r1'_def)
    from holds_ok[OF wf1 h0 h1 ne] obtain m2 where
      m2: "obind (case r0 of None \<Rightarrow> Returns m1 | Some a \<Rightarrow> hold a m1) (\<lambda>ma.
                  obind (case r1' of None \<Rightarrow> Returns ma | Some a \<Rightarrow> hold a ma) (\<lambda>mb.
                    Returns (Inr (r0, r1'), mb)))
            = Returns (Inr (r0, r1') :: error + releaseHandle, m2)"
        "nalloc m2 = nalloc m1" "gen m2 = gen m1" "byToken m2 = byToken m1"
        "byName m2 = byName m1"
        "set (byExpiry m2) = set (byExpiry m1) - (set_option r0 \<union> set_option r1')"
        "\<forall>a. erase_idx (nodes m2 a) =
                   (if a \<in> set_option r0 \<union> set_option r1'
                    then (erase_idx (nodes m1 a))\<lparr>held := True\<rparr> else erase_idx (nodes m1 a))"
        "wf_memLS m2" by blast
    have "Confirm now name0 name1 conds m = Some (Returns (Inr (r0, r1'), m2))"
      using False unfolding unf m2(1) by auto
    with False m2(2-8) show ?thesis unfolding su r1'_def by auto
  qed
qed

lemma held_update_same: "held x = b \<Longrightarrow> x\<lparr>held := b\<rparr> = x"
  by (cases x) simp

text \<open>A held, registered node stays held and registered through a sweep.\<close>

lemma sweep_keeps_held:
  assumes wf: "wf_memLS m2" and h: "held (nodes m2 n)" and t: "byToken m2 tok = Some n"
  shows "\<exists>m3. collectExpiredNodes now' m2 = Some (Returns m3) \<and> wf_memLS m3 \<and>
           held (nodes m3 n) \<and> byToken m3 tok = Some n \<and> n \<notin> set (byExpiry m3)"
proof -
  from sweep_ok[OF wf, of now'] obtain m3 where
    c: "collectExpiredNodes now' m2 = Some (Returns m3)" and wf3: "wf_memLS m3" and
    sub: "set (byExpiry m3) \<subseteq> set (byExpiry m2)" and
    tk: "\<forall>t. byToken m3 t =
           (if \<exists>a \<in> set (byExpiry m2) - set (byExpiry m3). token (nodes m2 a) = t then None
            else byToken m2 t)" and
    nd: "\<forall>a. details (nodes m3 a) = details (nodes m2 a) \<and>
             expiry (nodes m3 a) = expiry (nodes m2 a) \<and>
             held (nodes m3 a) = held (nodes m2 a) \<and>
             token (nodes m3 a) =
               (if a \<in> set (byExpiry m2) - set (byExpiry m3) then [] else token (nodes m2 a))"
    by blast
  have nq: "n \<notin> set (byExpiry m2)" by (rule wf_held_not_queued[OF wf h])
  have "\<not> (\<exists>a \<in> set (byExpiry m2) - set (byExpiry m3). token (nodes m2 a) = tok)"
  proof
    assume "\<exists>a \<in> set (byExpiry m2) - set (byExpiry m3). token (nodes m2 a) = tok"
    then obtain a where a: "a \<in> set (byExpiry m2)" "token (nodes m2 a) = tok" by blast
    from wf a(1) have "token (nodes m2 a) \<noteq> []" unfolding wf_memLS_def by blast
    with wf have "byToken m2 (token (nodes m2 a)) = Some a" unfolding wf_memLS_def by blast
    with a(2) t have "a = n" by simp
    with a(1) nq show False by simp
  qed
  with tk t have "byToken m3 tok = Some n" by simp
  moreover have "held (nodes m3 n)" using nd h by simp
  moreover have "n \<notin> set (byExpiry m3)" using nq sub by auto
  ultimately show ?thesis using c wf3 by blast
qed

section \<open>Refresh and Unlock on a well-formed lock system\<close>

text \<open>
  On a well-formed lock system, after the sweep: \<^verbatim>\<open>Refresh\<close> and \<^verbatim>\<open>Unlock\<close> of a token
  that is not registered return \<^verbatim>\<open>ErrNoSuchLock\<close>, and of a token whose node is held
  \<^verbatim>\<open>ErrLocked\<close>, leaving the swept lock system. Otherwise \<^verbatim>\<open>Refresh\<close> returns the details
  with the new duration, stores them, and the node is in the queue with expiry
  \<open>Add now d\<close> if \<open>d\<close> is finite and out of the queue if not; and \<^verbatim>\<open>Unlock\<close> succeeds,
  unregisters the token, clears the node's token, takes the node out of the queue and
  decrements the reference counts from its root to \<^verbatim>\<open>/\<close>, dropping the names that
  reach zero; a second \<^verbatim>\<open>Unlock\<close> of the token then returns \<^verbatim>\<open>ErrNoSuchLock\<close>. The lock
  systems \<open>sc5\<close> and \<open>sc6\<close> below are reached by calls of the interface and are not
  well formed.
\<close>

lemma Refresh_Unlock_wf:
  assumes wf: "wf_memLS m"
  shows "\<exists>m1. collectExpiredNodes now m = Some (Returns m1) \<and>
    (case byToken m1 tok of
       None \<Rightarrow>
         Refresh now tok d m = Some (Returns (Inl ErrNoSuchLock, m1)) \<and>
         Unlock now tok m = Some (Returns (Inl ErrNoSuchLock, m1))
     | Some n \<Rightarrow>
         if held (nodes m1 n) then
           Refresh now tok d m = Some (Returns (Inl ErrLocked, m1)) \<and>
           Unlock now tok m = Some (Returns (Inl ErrLocked, m1))
         else
           (\<exists>m2. Refresh now tok d m
                   = Some (Returns (Inr ((details (nodes m1 n))\<lparr>Duration := d\<rparr>), m2)) \<and>
                 wf_memLS m2 \<and>
                 details (nodes m2 n) = (details (nodes m1 n))\<lparr>Duration := d\<rparr> \<and>
                 byToken m2 = byToken m1 \<and> byName m2 = byName m1 \<and>
                 (if 0 \<le> d then n \<in> set (byExpiry m2) \<and> expiry (nodes m2 n) = Add now d
                  else n \<notin> set (byExpiry m2)) \<and>
                 set (byExpiry m2) - {n} = set (byExpiry m1) - {n}) \<and>
           (\<exists>m3. Unlock now tok m = Some (Returns (Inr (), m3)) \<and> wf_memLS m3 \<and>
                 byToken m3 = (byToken m1)(tok := None) \<and> token (nodes m3 n) = [] \<and>
                 set (byExpiry m3) = set (byExpiry m1) - {n} \<and>
                 (\<forall>name. byName m3 name =
                    (if name \<in> set (walkNames (Root (details (nodes m1 n)))) then
                       (case byName m1 name of
                          None \<Rightarrow> None
                        | Some x \<Rightarrow> if refCount (nodes m1 x) = 1 then None else Some x)
                     else byName m1 name)) \<and>
                 (\<forall>a. refCount (nodes m3 a) =
                    (if \<exists>name \<in> set (walkNames (Root (details (nodes m1 n)))).
                          byName m1 name = Some a
                     then refCount (nodes m1 a) - 1 else refCount (nodes m1 a))) \<and>
                 (\<forall>now'. \<exists>m4. Unlock now' tok m3 = Some (Returns (Inl ErrNoSuchLock, m4)))))"
proof -
  from sweep_ok[OF wf, of now] obtain m1 where
    c: "collectExpiredNodes now m = Some (Returns m1)" and wf1: "wf_memLS m1" by blast
  show ?thesis
  proof (cases "byToken m1 tok")
    case None
    with c show ?thesis by (simp add: Refresh_def Unlock_def rbind_def)
  next
    case (Some n)
    show ?thesis
    proof (cases "held (nodes m1 n)")
      case True
      with c Some show ?thesis by (simp add: Refresh_def Unlock_def rbind_def)
    next
      case False
      from wf_token_node[OF wf1 Some] have n: "n < nalloc m1" "token (nodes m1 n) = tok" by auto
      from Refresh_ok[OF wf1 Some False, of d now] obtain m2 where
        r: "Refresh now tok d m
              = Some (Returns (Inr ((details (nodes m1 n))\<lparr>Duration := d\<rparr>), m2))"
          "wf_memLS m2" "details (nodes m2 n) = (details (nodes m1 n))\<lparr>Duration := d\<rparr>"
          "byToken m2 = byToken m1" "byName m2 = byName m1"
          "if 0 \<le> d then n \<in> set (byExpiry m2) \<and> expiry (nodes m2 n) = Add now d
           else n \<notin> set (byExpiry m2)"
          "set (byExpiry m2) - {n} = set (byExpiry m1) - {n}"
        unfolding Refresh_def rbind_def using c Some False by auto
      from remove_ok[OF wf1 n(1)] obtain m3 where
        u: "remove n m1 = Returns m3" "wf_memLS m3"
          "byToken m3 = (byToken m1)(token (nodes m1 n) := None)"
          "set (byExpiry m3) = set (byExpiry m1) - {n}"
          "\<forall>a. details (nodes m3 a) = details (nodes m1 a) \<and>
                expiry (nodes m3 a) = expiry (nodes m1 a) \<and>
                held (nodes m3 a) = held (nodes m1 a) \<and>
                token (nodes m3 a) = (if a = n then [] else token (nodes m1 a))"
          "\<forall>name. byName m3 name =
              (if name \<in> set (walkNames (Root (details (nodes m1 n)))) then
                 (case byName m1 name of
                    None \<Rightarrow> None
                  | Some x \<Rightarrow> if refCount (nodes m1 x) = 1 then None else Some x)
               else byName m1 name)"
          "\<forall>a. refCount (nodes m3 a) =
              (if \<exists>name \<in> set (walkNames (Root (details (nodes m1 n)))). byName m1 name = Some a
               then refCount (nodes m1 a) - 1 else refCount (nodes m1 a))"
        by blast
      have u0: "Unlock now tok m = Some (Returns (Inr (), m3))"
        using c Some False u(1) by (simp add: Unlock_def rbind_def obind_def)
      have again: "\<exists>m4. Unlock now' tok m3 = Some (Returns (Inl ErrNoSuchLock, m4))" for now'
      proof -
        from sweep_ok[OF u(2), of now'] obtain m4 where
          c4: "collectExpiredNodes now' m3 = Some (Returns m4)" and
          t4: "\<forall>t. byToken m4 t =
               (if \<exists>a \<in> set (byExpiry m3) - set (byExpiry m4). token (nodes m3 a) = t then None
                else byToken m3 t)" by blast
        have "byToken m3 tok = None" by (simp add: u(3) n(2))
        with t4 have "byToken m4 tok = None" by simp
        with c4 show ?thesis by (auto simp: Unlock_def rbind_def)
      qed
      have tk: "token (nodes m3 n) = []" using u(5) by simp
      from c Some False r u0 u(2) u(3)[unfolded n(2)] tk u(4) u(6) u(7) again
      show ?thesis by auto
    qed
  qed
qed
section \<open>A lock that is deleted while a confirmation holds it\<close>

lemmas scene_defs = scene_def allNames_def dAB_def dA10_def cond2_def Second_def
  sc1_def sc2_def sc3_def sc4_def sc5_def sc6_def sc7_def sc8_def

lemmas op_defs = Confirm_def release_def hold_def unhold_def Delete_def Unlock_def Refresh_def
  remove_def remove_visit_def heap_Remove_def Pop_def down_def

lemma sc1_created: "Create 0 dAB (NewMemLS 0) = Some (Returns (Inr ''1'', sc1))"
  by (simp add: eval_defs eval_simps scene_defs fun_eq_iff)

lemma sc2_created: "Create 0 dA10 sc1 = Some (Returns (Inr ''2'', sc2))"
  by (simp add: eval_defs eval_simps scene_defs fun_eq_iff)

lemma sc3_confirmed:
  "Confirm (1 * Second) ''/a'' [] [cond2] sc2 = Some (Returns (Inr (Some 1, None), sc3))"
  by (simp add: eval_defs eval_simps op_defs scene_defs fun_eq_iff)

lemma sc4_deleted: "Delete (2 * Second) ''/a'' sc3 = Some (Returns (Inr (), sc4))"
  by (simp add: eval_defs eval_simps op_defs scene_defs fun_eq_iff)

lemma sc5_created: "Create (3 * Second) dA10 sc4 = Some (Returns (Inr ''3'', sc5))"
  by (simp add: eval_defs eval_simps scene_defs fun_eq_iff)

lemma sc6_released: "release (Some 1, None) sc5 = Returns sc6"
  by (simp add: eval_defs eval_simps op_defs scene_defs fun_eq_iff)

lemma sc7_unlocked: "Unlock (5 * Second) ''3'' sc6 = Some (Returns (Inr (), sc7))"
  by (simp add: eval_defs eval_simps op_defs scene_defs fun_eq_iff)

lemma sc7_remove: "remove 1 sc7 = Returns sc8"
  by (simp add: eval_defs eval_simps op_defs scene_defs fun_eq_iff)

lemma sc8_remove: "remove 1 sc8 = Returns sc8"
  by (simp add: eval_defs eval_simps op_defs scene_defs fun_eq_iff)

text \<open>
  From \<open>sc7\<close> on, the sweep at an instant from 13 seconds on does not return: the node
  of \<^verbatim>\<open>/a\<close> heads the queue with the index -1, so \<^verbatim>\<open>remove\<close> leaves it there.
\<close>

lemma sc7_queue:
  "byExpiry sc7 = [1]" "expiry (nodes sc7 1) = 13 * Second"
  "byExpiry sc8 = [1]" "expiry (nodes sc8 1) = 13 * Second"
  by (simp_all add: scene_defs)

lemma sweep_stuck_aux:
  assumes "collectExpiredNodes now m = Some y"
  shows "\<not> (13 * Second \<le> now \<and> (m = sc7 \<or> m = sc8))"
proof (rule collectExpiredNodes.raw_induct
    [where P = "\<lambda>now m y. \<not> (13 * Second \<le> now \<and> (m = sc7 \<or> m = sc8))", OF _ assms])
  fix f :: "time \<Rightarrow> memLS \<Rightarrow> memLS outcome option" and now m y
  assume IH: "\<And>now m y. f now m = Some y \<Longrightarrow> \<not> (13 * Second \<le> now \<and> (m = sc7 \<or> m = sc8))"
    and body: "(case byExpiry m of
                  [] \<Rightarrow> Some (Returns m)
                | a # rest \<Rightarrow>
                    if now < expiry (nodes m a) then Some (Returns m)
                    else (case remove a m of
                            Panics \<Rightarrow> Some Panics
                          | Returns m' \<Rightarrow> f now m')) = Some y"
  show "\<not> (13 * Second \<le> now \<and> (m = sc7 \<or> m = sc8))"
  proof
    assume a: "13 * Second \<le> now \<and> (m = sc7 \<or> m = sc8)"
    then have "f now sc8 = Some y"
      using body by (auto simp: sc7_queue sc7_remove sc8_remove simp del: One_nat_def)
    from IH[OF this] a show False by simp
  qed
qed

lemma sc7_sweep: "13 * Second \<le> now \<Longrightarrow> collectExpiredNodes now sc7 = None"
  using sweep_stuck_aux[of now sc7] by (cases "collectExpiredNodes now sc7") auto

lemma sc6_remove: "remove 1 sc6 = Returns sc7"
  by (simp add: eval_defs eval_simps op_defs scene_defs fun_eq_iff)

lemma sc6_queue: "byExpiry sc6 = [1, 1]" "expiry (nodes sc6 1) = 13 * Second"
  by (simp_all add: scene_defs)

lemma sc6_sweep: "13 * Second \<le> now \<Longrightarrow> collectExpiredNodes now sc6 = None"
  using sc7_sweep[of now]
  by (subst collectExpiredNodes.simps) (simp add: sc6_remove sc6_queue del: One_nat_def)

lemma sc7_sweep_early: "now < 13 * Second \<Longrightarrow> collectExpiredNodes now sc7 = Some (Returns sc7)"
  by (subst collectExpiredNodes.simps) (simp add: sc7_queue del: One_nat_def)

text \<open>Neither \<open>sc5\<close>, where a held node is queued, nor \<open>sc6\<close>, where a node is queued twice, is well formed.\<close>

lemma sc5_not_wf: "\<not> wf_memLS sc5"
  by (simp add: wf_memLS_def scene_defs)

lemma sc6_not_wf: "\<not> wf_memLS sc6"
proof
  assume "wf_memLS sc6"
  then have "idx_ok sc6" by (simp add: wf_memLS_def)
  then have "distinct (byExpiry sc6)" by (rule idx_ok_distinct)
  then show False by (simp add: scene_defs)
qed

section \<open>Delete on a name whose node carries no lock\<close>

lemma an1_deleted: "Delete 0 ''/a'' sc1 = Some (Returns (Inr (), an1))"
  by (simp add: eval_defs eval_simps op_defs scene_defs an1_def fun_eq_iff)

lemma an2_created: "Create 0 dAinf an1 = Some (Returns (Inr ''2'', an2))"
  by (simp add: eval_defs eval_simps scene_defs an1_def an2_def dAinf_def fun_eq_iff)

section \<open>GetByName and the clock\<close>

lemmas get_defs = GetByName_def GetByName_loop.simps Dir_def

lemma exA_GetByName:
  "GetByName 5 ''/a/b/c'' exA = Some (Returns (Inr (''1'', 0, dA), exA))"
  by (simp add: eval_defs eval_simps get_defs exA_def dA_def)

lemma an2_GetByName:
  "GetByName 5 ''/a/b'' an2 = Some (Returns (Inr (''1'', 0, dAB), an2))"
  "GetByName 5 ''/a'' an2 = Some (Returns (Inr (''2'', 0, dAinf), an2))"
  by (simp_all add: eval_defs eval_simps get_defs scene_defs an1_def an2_def dAinf_def)


section \<open>The claims\<close>

text \<open>
  \<^verbatim>\<open>Delete\<close> does not test whether the node it removes is held, and \<^verbatim>\<open>remove\<close> does not
  clear \<^verbatim>\<open>held\<close>. A node that is deleted while a confirmation holds it stays in the
  name index when a lock beneath it keeps its reference count above zero; a later
  \<^verbatim>\<open>Create\<close> at its name reuses the node and queues it while it is still marked held,
  and the \<^verbatim>\<open>release\<close> of the old confirmation queues it a second time. The queue then
  holds the node twice under one index, \<^verbatim>\<open>heap.Remove\<close> takes out one copy only, and
  once the index is -1 the expiry sweep removes the expired head for ever without
  taking it out of the queue. The theorems for C3 to C7 below evaluate the code along
  this one sequence of calls.
\<close>

text \<open>
  C1. The tree invariants do not survive \<^verbatim>\<open>Delete\<close> on a name whose node carries no
  lock. After \<^verbatim>\<open>Create(0, /a/b)\<close> of a zero-depth lock on a new lock system, the node of
  \<^verbatim>\<open>/a\<close> carries no token and has the reference count 1. \<^verbatim>\<open>Delete(0, /a)\<close> returns no
  error and takes \<^verbatim>\<open>/a\<close> and \<^verbatim>\<open>/\<close> out of the name index with reference counts 0,
  although the lock on \<^verbatim>\<open>/a/b\<close> beneath them is still registered with its reference
  count 1. A \<^verbatim>\<open>Create\<close> of an infinite-depth lock at \<^verbatim>\<open>/a\<close> then succeeds, so that an
  infinite-depth lock on \<^verbatim>\<open>/a\<close> and a lock on \<^verbatim>\<open>/a/b\<close> exist together, and
  \<^verbatim>\<open>GetByName\<close> reports both.
\<close>

theorem C1_Delete_of_anchor_breaks_tree:
  "Create 0 dAB (NewMemLS 0) = Some (Returns (Inr ''1'', sc1)) \<and>
   byName sc1 ''/a'' = Some 1 \<and> token (nodes sc1 1) = [] \<and> refCount (nodes sc1 1) = 1 \<and>
   Delete 0 ''/a'' sc1 = Some (Returns (Inr (), an1)) \<and>
   byToken an1 ''1'' = Some 0 \<and> byName an1 ''/a/b'' = Some 0 \<and> refCount (nodes an1 0) = 1 \<and>
   byName an1 ''/a'' = None \<and> byName an1 ''/'' = None \<and>
   refCount (nodes an1 1) = 0 \<and> refCount (nodes an1 2) = 0 \<and>
   Create 0 dAinf an1 = Some (Returns (Inr ''2'', an2)) \<and>
   Root dAinf = ''/a'' \<and> \<not> ZeroDepth dAinf \<and>
   GetByName 5 ''/a/b'' an2 = Some (Returns (Inr (''1'', 0, dAB), an2)) \<and>
   GetByName 5 ''/a'' an2 = Some (Returns (Inr (''2'', 0, dAinf), an2))"
proof -
  have "byName sc1 ''/a'' = Some 1" "token (nodes sc1 1) = []" "refCount (nodes sc1 1) = 1"
    "byToken an1 ''1'' = Some 0" "byName an1 ''/a/b'' = Some 0" "refCount (nodes an1 0) = 1"
    "byName an1 ''/a'' = None" "byName an1 ''/'' = None"
    "refCount (nodes an1 1) = 0" "refCount (nodes an1 2) = 0"
    "Root dAinf = ''/a''" "\<not> ZeroDepth dAinf"
    by (simp_all add: scene_defs an1_def dAinf_def newNode_def)
  with sc1_created an1_deleted an2_created an2_GetByName show ?thesis by blast
qed
text \<open>
  C2. \<^verbatim>\<open>GetByName\<close> does not test the depth of the lock it finds at an ancestor. On the
  lock system \<open>exA\<close>, which is a new lock system after the \<^verbatim>\<open>Create\<close> of a zero-depth
  lock at \<^verbatim>\<open>/a\<close>, \<^verbatim>\<open>GetByName(/a/b/c)\<close> returns the token and the details of that lock
  and no \<^verbatim>\<open>ErrNoSuchLock\<close>; \<^verbatim>\<open>lookup\<close>, on which \<^verbatim>\<open>Confirm\<close> rests, does test the depth
  and finds no lock for \<^verbatim>\<open>/a/b/c\<close> under the same token.
\<close>

theorem C2_GetByName_zero_depth_ancestor:
  "Create 0 dA (NewMemLS 0) = Some (Returns (Inr ''1'', exA)) \<and>
   Root dA = ''/a'' \<and> ZeroDepth dA \<and>
   GetByName 5 ''/a/b/c'' exA = Some (Returns (Inr (''1'', 0, dA), exA)) \<and>
   lookup ''/a/b/c'' [cond1] exA = None"
proof -
  have "Root dA = ''/a''" "ZeroDepth dA" "lookup ''/a/b/c'' [cond1] exA = None"
    by (simp_all add: dA_def exA_def cond1_def)
  with exA_created exA_GetByName show ?thesis by blast
qed
text \<open>
  C3. \<^verbatim>\<open>Create\<close> does not return on a lock system that the interface reaches. When
  a new lock system whose token counter starts at 0 takes the calls
  \<^verbatim>\<open>Create(0, /a/b)\<close> (zero depth, never expiring; token \<^verbatim>\<open>1\<close>), \<^verbatim>\<open>Create(0, /a)\<close> (zero
  depth, 10 seconds; token \<^verbatim>\<open>2\<close>), \<^verbatim>\<open>Confirm(1, /a)\<close> with the token \<^verbatim>\<open>2\<close>,
  \<^verbatim>\<open>Delete(2, /a)\<close>, \<^verbatim>\<open>Create(3, /a)\<close> again (token \<^verbatim>\<open>3\<close>) and the \<^verbatim>\<open>release\<close> that the
  \<^verbatim>\<open>Confirm\<close> returned, and
  then \<^verbatim>\<open>Unlock(5)\<close> of the token \<^verbatim>\<open>3\<close>, no lock is at, above or below \<^verbatim>\<open>/c\<close> and
  \<^verbatim>\<open>canCreate\<close> accepts a lock there, yet \<^verbatim>\<open>Create(13, /c)\<close> does not return: its expiry
  sweep does not end.
\<close>

theorem C3_Create_does_not_return:
  "Create 0 dAB (NewMemLS 0) = Some (Returns (Inr ''1'', sc1)) \<and>
   Create 0 dA10 sc1 = Some (Returns (Inr ''2'', sc2)) \<and>
   Confirm (1 * Second) ''/a'' [] [cond2] sc2 = Some (Returns (Inr (Some 1, None), sc3)) \<and>
   Delete (2 * Second) ''/a'' sc3 = Some (Returns (Inr (), sc4)) \<and>
   Create (3 * Second) dA10 sc4 = Some (Returns (Inr ''3'', sc5)) \<and>
   release (Some 1, None) sc5 = Returns sc6 \<and>
   Unlock (5 * Second) ''3'' sc6 = Some (Returns (Inr (), sc7)) \<and>
   canCreate (Root dC) (ZeroDepth dC) sc7 = Returns True \<and>
   Create (13 * Second) dC sc7 = None"
proof -
  have "canCreate (Root dC) (ZeroDepth dC) sc7 = Returns True"
    by (simp add: eval_defs eval_simps scene_defs dC_def)
  moreover have "Create (13 * Second) dC sc7 = None"
    by (simp add: Create_def rbind_def sc7_sweep)
  ultimately show ?thesis
    using sc1_created sc2_created sc3_confirmed sc4_deleted sc5_created sc6_released
      sc7_unlocked by blast
qed
text \<open>
  C4. \<^verbatim>\<open>Confirm\<close> does not return on a lock system that the interface reaches. When
  a new lock system whose token counter starts at 0 takes the calls
  \<^verbatim>\<open>Create(0, /a/b)\<close> (zero depth, never expiring; token \<^verbatim>\<open>1\<close>), \<^verbatim>\<open>Create(0, /a)\<close> (zero
  depth, 10 seconds; token \<^verbatim>\<open>2\<close>), \<^verbatim>\<open>Confirm(1, /a)\<close> with the token \<^verbatim>\<open>2\<close>,
  \<^verbatim>\<open>Delete(2, /a)\<close>, \<^verbatim>\<open>Create(3, /a)\<close> again (token \<^verbatim>\<open>3\<close>) and the \<^verbatim>\<open>release\<close> that the
  \<^verbatim>\<open>Confirm\<close> returned, and
  then \<^verbatim>\<open>Unlock(5)\<close> of the token \<^verbatim>\<open>3\<close>, the token \<^verbatim>\<open>2\<close> is not registered, so no
  condition that presents it matches \<^verbatim>\<open>/a/b\<close>. \<^verbatim>\<open>Confirm(12, /a/b)\<close> with that
  condition returns \<^verbatim>\<open>ErrConfirmationFailed\<close> and leaves the lock system as it is, but
  \<^verbatim>\<open>Confirm(13, /a/b)\<close> does not return: its expiry sweep does not end.
\<close>

theorem C4_Confirm_does_not_return:
  "Create 0 dAB (NewMemLS 0) = Some (Returns (Inr ''1'', sc1)) \<and>
   Create 0 dA10 sc1 = Some (Returns (Inr ''2'', sc2)) \<and>
   Confirm (1 * Second) ''/a'' [] [cond2] sc2 = Some (Returns (Inr (Some 1, None), sc3)) \<and>
   Delete (2 * Second) ''/a'' sc3 = Some (Returns (Inr (), sc4)) \<and>
   Create (3 * Second) dA10 sc4 = Some (Returns (Inr ''3'', sc5)) \<and>
   release (Some 1, None) sc5 = Returns sc6 \<and>
   Unlock (5 * Second) ''3'' sc6 = Some (Returns (Inr (), sc7)) \<and>
   byToken sc7 (Token cond2) = None \<and>
   Confirm (12 * Second) ''/a/b'' [] [cond2] sc7 = Some (Returns (Inl ErrConfirmationFailed, sc7)) \<and>
   Confirm (13 * Second) ''/a/b'' [] [cond2] sc7 = None"
proof -
  have t: "byToken sc7 (Token cond2) = None"
    by (simp add: scene_defs)
  have "collectExpiredNodes (12 * Second) sc7 = Some (Returns sc7)"
    by (rule sc7_sweep_early) (simp add: Second_def)
  with t have "Confirm (12 * Second) ''/a/b'' [] [cond2] sc7
      = Some (Returns (Inl ErrConfirmationFailed, sc7))"
    by (simp add: Confirm_def rbind_def)
  moreover have "Confirm (13 * Second) ''/a/b'' [] [cond2] sc7 = None"
    by (simp add: Confirm_def rbind_def sc7_sweep)
  ultimately show ?thesis
    using t sc1_created sc2_created sc3_confirmed sc4_deleted sc5_created sc6_released
      sc7_unlocked by blast
qed
text \<open>
  C5. The expiry sweep does not end on a lock system that the interface reaches. When
  a new lock system whose token counter starts at 0 takes the calls
  \<^verbatim>\<open>Create(0, /a/b)\<close> (zero depth, never expiring; token \<^verbatim>\<open>1\<close>), \<^verbatim>\<open>Create(0, /a)\<close> (zero
  depth, 10 seconds; token \<^verbatim>\<open>2\<close>), \<^verbatim>\<open>Confirm(1, /a)\<close> with the token \<^verbatim>\<open>2\<close>,
  \<^verbatim>\<open>Delete(2, /a)\<close>, \<^verbatim>\<open>Create(3, /a)\<close> again (token \<^verbatim>\<open>3\<close>) and the \<^verbatim>\<open>release\<close> that the
  \<^verbatim>\<open>Confirm\<close> returned, the
  lock with the token \<^verbatim>\<open>3\<close>, created on \<^verbatim>\<open>/a\<close> at 3 for 10 seconds, is registered, not
  held, and its node is in the queue twice with the expiry 13. From 13 on the sweep
  removes that node without end, so that a \<^verbatim>\<open>Create\<close> at \<^verbatim>\<open>/a\<close>, a \<^verbatim>\<open>GetByName\<close> of
  \<^verbatim>\<open>/a\<close> and a \<^verbatim>\<open>Delete\<close> at 13 do not return.
\<close>

theorem C5_sweep_does_not_return:
  "Create 0 dAB (NewMemLS 0) = Some (Returns (Inr ''1'', sc1)) \<and>
   Create 0 dA10 sc1 = Some (Returns (Inr ''2'', sc2)) \<and>
   Confirm (1 * Second) ''/a'' [] [cond2] sc2 = Some (Returns (Inr (Some 1, None), sc3)) \<and>
   Delete (2 * Second) ''/a'' sc3 = Some (Returns (Inr (), sc4)) \<and>
   Create (3 * Second) dA10 sc4 = Some (Returns (Inr ''3'', sc5)) \<and>
   release (Some 1, None) sc5 = Returns sc6 \<and>
   byToken sc6 ''3'' = Some 1 \<and> \<not> held (nodes sc6 1) \<and>
   expiry (nodes sc6 1) = 13 * Second \<and> byExpiry sc6 = [1, 1] \<and>
   collectExpiredNodes (13 * Second) sc6 = None \<and>
   Create (13 * Second) dA10 sc6 = None \<and>
   GetByName (13 * Second) ''/a'' sc6 = None \<and>
   Delete (13 * Second) ''/a'' sc6 = None"
proof -
  have s: "collectExpiredNodes (13 * Second) sc6 = None"
    by (simp add: sc6_sweep)
  have "byToken sc6 ''3'' = Some 1" "\<not> held (nodes sc6 1)"
    "expiry (nodes sc6 1) = 13 * Second" "byExpiry sc6 = [1, 1]"
    by (simp_all add: scene_defs)
  moreover have "Create (13 * Second) dA10 sc6 = None"
    "GetByName (13 * Second) ''/a'' sc6 = None" "Delete (13 * Second) ''/a'' sc6 = None"
    by (simp_all add: Create_def GetByName_def Delete_def rbind_def s)
  ultimately show ?thesis
    using s sc1_created sc2_created sc3_confirmed sc4_deleted sc5_created sc6_released
    by blast
qed
text \<open>
  C6. \<^verbatim>\<open>Unlock\<close> does not fully remove a lock on a lock system that the interface
  reaches. When
  a new lock system whose token counter starts at 0 takes the calls
  \<^verbatim>\<open>Create(0, /a/b)\<close> (zero depth, never expiring; token \<^verbatim>\<open>1\<close>), \<^verbatim>\<open>Create(0, /a)\<close> (zero
  depth, 10 seconds; token \<^verbatim>\<open>2\<close>), \<^verbatim>\<open>Confirm(1, /a)\<close> with the token \<^verbatim>\<open>2\<close>,
  \<^verbatim>\<open>Delete(2, /a)\<close>, \<^verbatim>\<open>Create(3, /a)\<close> again (token \<^verbatim>\<open>3\<close>) and the \<^verbatim>\<open>release\<close> that the
  \<^verbatim>\<open>Confirm\<close> returned, the
  token \<^verbatim>\<open>3\<close> is registered and its node is not held. \<^verbatim>\<open>Unlock(5)\<close> of that token
  returns no error and unregisters the token, but the node stays in the queue, with
  the index -1 and the expiry 13. From 13 on \<^verbatim>\<open>Unlock\<close> and \<^verbatim>\<open>Refresh\<close> do not return,
  neither for that token nor for the live token \<^verbatim>\<open>1\<close>: their expiry sweep does not
  end. (On a well-formed lock system \<^verbatim>\<open>Refresh\<close> and \<^verbatim>\<open>Unlock\<close> do what the lemma
  \<open>Refresh_Unlock_wf\<close> says.)
\<close>

theorem C6_Unlock_leaves_node_queued:
  "Create 0 dAB (NewMemLS 0) = Some (Returns (Inr ''1'', sc1)) \<and>
   Create 0 dA10 sc1 = Some (Returns (Inr ''2'', sc2)) \<and>
   Confirm (1 * Second) ''/a'' [] [cond2] sc2 = Some (Returns (Inr (Some 1, None), sc3)) \<and>
   Delete (2 * Second) ''/a'' sc3 = Some (Returns (Inr (), sc4)) \<and>
   Create (3 * Second) dA10 sc4 = Some (Returns (Inr ''3'', sc5)) \<and>
   release (Some 1, None) sc5 = Returns sc6 \<and>
   byToken sc6 ''3'' = Some 1 \<and> \<not> held (nodes sc6 1) \<and>
   Unlock (5 * Second) ''3'' sc6 = Some (Returns (Inr (), sc7)) \<and>
   byToken sc7 ''3'' = None \<and> byExpiry sc7 = [1] \<and>
   byExpiryIndex (nodes sc7 1) = - 1 \<and> expiry (nodes sc7 1) = 13 * Second \<and>
   Unlock (13 * Second) ''3'' sc7 = None \<and>
   Unlock (13 * Second) ''1'' sc7 = None \<and>
   Refresh (13 * Second) ''1'' (10 * Second) sc7 = None"
proof -
  have "byToken sc6 ''3'' = Some 1" "\<not> held (nodes sc6 1)"
    "byToken sc7 ''3'' = None" "byExpiry sc7 = [1]"
    "byExpiryIndex (nodes sc7 1) = - 1" "expiry (nodes sc7 1) = 13 * Second"
    by (simp_all add: scene_defs)
  moreover have "Unlock (13 * Second) ''3'' sc7 = None" "Unlock (13 * Second) ''1'' sc7 = None"
    "Refresh (13 * Second) ''1'' (10 * Second) sc7 = None"
    by (simp_all add: Unlock_def Refresh_def rbind_def sc7_sweep)
  ultimately show ?thesis
    using sc1_created sc2_created sc3_confirmed sc4_deleted sc5_created sc6_released
      sc7_unlocked by blast
qed
text \<open>
  C7. A held node does not stay protected, because \<^verbatim>\<open>Delete\<close> does not test \<^verbatim>\<open>held\<close>.
  On a new lock system whose token counter starts at 0, after \<^verbatim>\<open>Create(0, /a/b)\<close>
  (token \<^verbatim>\<open>1\<close>) and \<^verbatim>\<open>Create(0, /a)\<close> (10 seconds, token \<^verbatim>\<open>2\<close>), \<^verbatim>\<open>Confirm(1, /a)\<close> with
  the token \<^verbatim>\<open>2\<close> holds the node of \<^verbatim>\<open>/a\<close>. \<^verbatim>\<open>Delete(2, /a)\<close> removes the lock of the
  held node, so that \<^verbatim>\<open>Unlock\<close> and \<^verbatim>\<open>Refresh\<close> of its token return \<^verbatim>\<open>ErrNoSuchLock\<close>
  and not \<^verbatim>\<open>ErrLocked\<close> while the node is still held. \<^verbatim>\<open>Create(3, /a)\<close> then puts the
  node, still held, into the queue, where the sweep at 13 removes it with its new
  lock; and the \<^verbatim>\<open>release\<close> of the confirmation inserts it into the queue a second
  time.
\<close>

theorem C7_held_node_deleted_and_queued:
  "Create 0 dAB (NewMemLS 0) = Some (Returns (Inr ''1'', sc1)) \<and>
   Create 0 dA10 sc1 = Some (Returns (Inr ''2'', sc2)) \<and>
   Confirm (1 * Second) ''/a'' [] [cond2] sc2 = Some (Returns (Inr (Some 1, None), sc3)) \<and>
   held (nodes sc3 1) \<and> byToken sc3 ''2'' = Some 1 \<and>
   Delete (2 * Second) ''/a'' sc3 = Some (Returns (Inr (), sc4)) \<and>
   held (nodes sc4 1) \<and>
   Unlock (2 * Second) ''2'' sc4 = Some (Returns (Inl ErrNoSuchLock, sc4)) \<and>
   Refresh (2 * Second) ''2'' (10 * Second) sc4 = Some (Returns (Inl ErrNoSuchLock, sc4)) \<and>
   Create (3 * Second) dA10 sc4 = Some (Returns (Inr ''3'', sc5)) \<and>
   held (nodes sc5 1) \<and> byExpiry sc5 = [1] \<and>
   collectExpiredNodes (13 * Second) sc5 = Some (Returns sc5e) \<and>
   byToken sc5e ''3'' = None \<and>
   release (Some 1, None) sc5 = Returns sc6 \<and>
   byExpiry sc6 = [1, 1]"
proof -
  have "held (nodes sc3 1)" "byToken sc3 ''2'' = Some 1" "held (nodes sc4 1)"
    "held (nodes sc5 1)" "byExpiry sc5 = [1]" "byExpiry sc6 = [1, 1]"
    "byToken sc5e ''3'' = None"
    by (simp_all add: scene_defs sc5e_def)
  moreover have "Unlock (2 * Second) ''2'' sc4 = Some (Returns (Inl ErrNoSuchLock, sc4))"
    "Refresh (2 * Second) ''2'' (10 * Second) sc4 = Some (Returns (Inl ErrNoSuchLock, sc4))"
    by (simp_all add: eval_defs eval_simps op_defs scene_defs)
  moreover have "collectExpiredNodes (13 * Second) sc5 = Some (Returns sc5e)"
    by (simp add: eval_defs eval_simps op_defs scene_defs sc5e_def fun_eq_iff)
  ultimately show ?thesis
    using sc1_created sc2_created sc3_confirmed sc4_deleted sc5_created sc6_released
    by blast
qed




text \<open>
  C9. \<^verbatim>\<open>parseTimeout\<close> returns the infinite timeout for the empty input. Otherwise it
  looks only at the text before the first comma, with the surrounding white space
  trimmed: the literal \<^verbatim>\<open>Infinite\<close> gives the infinite timeout; \<^verbatim>\<open>Second-\<close> followed by
  one or more decimal digits whose value \<open>n\<close> is at most \<open>2^32 - 1\<close> gives \<open>n\<close> seconds; every
  other form is the error, with no duration. So \<^verbatim>\<open>Second-120\<close> is 120 seconds and
  \<^verbatim>\<open>Second-4294967296\<close> is an error.
\<close>

theorem C9_parseTimeout:
  "parseTimeout s =
     (if s = [] then Inr infiniteTimeout
      else let e = TrimSpace (takeWhile (\<lambda>c. c \<noteq> CHR '','') s)
           in if e = ''Infinite'' then Inr infiniteTimeout
              else if \<exists>ds. e = ''Second-'' @ ds \<and> ds \<noteq> [] \<and> list_all isDigit ds
                          \<and> digitsValue ds \<le> 2 ^ 32 - 1
                   then Inr (int (digitsValue (drop 7 e)) * Second)
                   else Inl errInvalidTimeout)
   \<and> parseTimeout [] = Inr infiniteTimeout
   \<and> parseTimeout ''Infinite'' = Inr infiniteTimeout
   \<and> parseTimeout ''Second-120'' = Inr (120 * Second)
   \<and> parseTimeout ''Second-4294967296'' = Inl errInvalidTimeout
   \<and> parseTimeout ''garbage'' = Inl errInvalidTimeout"
proof -
  have "parseTimeout [] = Inr infiniteTimeout"
    by (simp add: parseTimeout_def)
  then show ?thesis
    using parseTimeout_general[of s] parseTimeout_120 parseTimeout_too_big
      parseTimeout_Infinite parseTimeout_garbage
    by simp
qed

theorem C9_parseTimeout_witness:
  "parseTimeout '' Second-120 , Infinite'' = Inr (120 * Second)"
proof -
  have e: "TrimSpace (takeWhile (\<lambda>c. c \<noteq> CHR '','') '' Second-120 , Infinite'') = ''Second-120''"
    by (simp add: TrimSpace_Second_120_spaces)
  have d: "\<exists>ds. ''Second-120'' = ''Second-'' @ ds \<and> ds \<noteq> [] \<and> list_all isDigit ds
              \<and> digitsValue ds \<le> 2 ^ 32 - 1"
    by (rule exI[of _ "''120''"]) (simp add: isDigit_def digitsValue_def less_eq_char_def)
  have v: "int (digitsValue (drop 7 ''Second-120'')) = 120"
    by (simp add: digitsValue_def)
  from C9_parseTimeout[of "'' Second-120 , Infinite''"] d show ?thesis
    unfolding e Let_def v by simp
qed

text \<open>
  C10. A \<^verbatim>\<open>Create\<close> that returns an error returns \<^verbatim>\<open>ErrLocked\<close>, and the lock system it
  leaves is the one the expiry sweep alone leaves: no node is created, no reference
  count, token, token counter or queue entry differs.
\<close>

theorem C10_Create_failure_atomic:
  "Create now d m0 = Some (Returns (Inl e, m')) \<Longrightarrow>
     e = ErrLocked \<and> collectExpiredNodes now m0 = Some (Returns m')"
  unfolding Create_def rbind_def obind_def Let_def
  by (auto split: option.splits outcome.splits if_splits prod.splits)

theorem C10_Create_failure_atomic_witness:
  "Create 1 \<lparr>Root = ''/a'', Duration = 5, OwnerXML = [], ZeroDepth = True\<rparr> exA
     = Some (Returns (Inl ErrLocked, exA))
   \<and> collectExpiredNodes 1 exA = Some (Returns exA)"
  using C10_Create_failure_atomic[OF exA_Create_again] exA_Create_again by simp

end
